theory Spec2Isabelle
  imports Complex_Main "HOL-Library.Word" "HOL-Library.Signed_Division" "HOL-Library.Monad_Syntax"
begin

section \<open>Riemersma dithering: the engine of riemersma.go\<close>

text \<open>
  The development embeds the package \<^verbatim>\<open>riemersma\<close> (type \<^verbatim>\<open>Op\<close>): the weight curve
  (\<^verbatim>\<open>initWeights\<close>), the ring buffer of quantization errors (\<^verbatim>\<open>errorList\<close>), the Hilbert
  traversal (\<^verbatim>\<open>hilbertLevel\<close>, \<^verbatim>\<open>move\<close>), the accumulation of the diffused error
  (\<^verbatim>\<open>AccumulatedError\<close>) and the per-pixel step (\<^verbatim>\<open>anyImage.DitherPixel\<close>).

  Conventions.
  \<^item> A Go \<^verbatim>\<open>int\<close> is an \<open>int\<close>. Image sides are Go ints, the cursor of a traversal
    stays inside the square of side \<open>2 ^ level\<close> that the curve fills, and the ring
    index stays below the queue size, so no such value wraps around. The \<^verbatim>\<open>int32\<close>
    arithmetic of \<^verbatim>\<open>DitherPixel\<close> can wrap: it is a \<open>32 word\<close>.
  \<^item> A run-time panic (index out of range, \<^verbatim>\<open>make\<close> with a negative length, integer
    division by zero) and unbounded recursion are the result \<open>None\<close>; a call that
    returns normally is \<open>Some\<close> of the state it leaves.
  \<^item> \<^verbatim>\<open>float64\<close> is a type parameter \<open>'f\<close>, and the primitives the code applies to it
    are the fields of a record \<open>float_ops\<close> passed to every function. Nothing is assumed of
    them; a theorem that needs a fact of binary64 arithmetic states it as a hypothesis,
    or is stated for one of the two instances below.
\<close>

subsection \<open>float64 primitives\<close>

record 'f float_ops =
  f_of_int :: "int \<Rightarrow> 'f"                \<comment> \<open>\<^verbatim>\<open>float64(n)\<close>; the literals \<^verbatim>\<open>1.0\<close> and the zero value\<close>
  f_mul :: "'f \<Rightarrow> 'f \<Rightarrow> 'f"              \<comment> \<open>\<^verbatim>\<open>a * b\<close>\<close>
  f_div :: "'f \<Rightarrow> 'f \<Rightarrow> 'f"              \<comment> \<open>\<^verbatim>\<open>a / b\<close> (never panics in Go)\<close>
  f_sub :: "'f \<Rightarrow> 'f \<Rightarrow> 'f"              \<comment> \<open>\<^verbatim>\<open>a - b\<close>\<close>
  f_muladd :: "'f \<Rightarrow> 'f \<Rightarrow> 'f \<Rightarrow> 'f"     \<comment> \<open>\<^verbatim>\<open>a += b * c\<close>, fused or not as the target does\<close>
  f_exp :: "'f \<Rightarrow> 'f"                    \<comment> \<open>\<^verbatim>\<open>math.Exp\<close>\<close>
  f_log :: "'f \<Rightarrow> 'f"                    \<comment> \<open>\<^verbatim>\<open>math.Log\<close>\<close>
  f_round :: "'f \<Rightarrow> 'f"                  \<comment> \<open>\<^verbatim>\<open>math.Round\<close>\<close>
  f_to_int32 :: "'f \<Rightarrow> 32 word"          \<comment> \<open>\<^verbatim>\<open>int32(a)\<close>\<close>
  f_le :: "'f \<Rightarrow> 'f \<Rightarrow> bool"            \<comment> \<open>\<^verbatim>\<open>a <= b\<close>\<close>

text \<open>
  Exact arithmetic on the reals, with Go's rounding half away from zero and truncating
  conversion. It agrees with binary64 wherever every operand and result is an integer
  of magnitude below \<open>2 ^ 53\<close> and no divisor is zero, and serves to run the model on
  concrete inputs of that kind.

  The conversion \<^verbatim>\<open>int32(a)\<close> truncates towards zero. For a value that \<^verbatim>\<open>int32\<close>
  cannot represent the result is implementation-dependent in Go; the model takes the
  result of the amd64 target, which is \<open>- 2 ^ 31\<close>.
\<close>

definition round_half_away :: "real \<Rightarrow> real" where
  "round_half_away a = (if 0 \<le> a then of_int \<lfloor>a + 1 / 2\<rfloor> else of_int \<lceil>a - 1 / 2\<rceil>)"

definition trunc_int32 :: "real \<Rightarrow> 32 word" where
  "trunc_int32 a =
     (let k = (if 0 \<le> a then \<lfloor>a\<rfloor> else \<lceil>a\<rceil>) in
      if - 2147483648 \<le> k \<and> k \<le> 2147483647 then word_of_int k
      else word_of_int (- 2147483648))"

definition exact_ops :: "real float_ops" where
  "exact_ops = \<lparr> f_of_int = of_int, f_mul = (*), f_div = (/), f_sub = (-),
     f_muladd = (\<lambda>a b c. a + b * c), f_exp = exp, f_log = ln,
     f_round = round_half_away, f_to_int32 = trunc_int32, f_le = (\<le>) \<rparr>"

text \<open>
  The same arithmetic extended by the special values of binary64: the two infinities
  and NaN. The finite values are the reals, so there is no rounding and no overflow
  to an infinity, and there is one zero, which divides like the positive zero. The
  special values behave as in binary64 and in the package \<^verbatim>\<open>math\<close>: \<open>0 / 0\<close>,
  \<open>0 * \<infinity>\<close>, \<open>\<infinity> - \<infinity>\<close>, \<open>\<infinity> / \<infinity>\<close> and every operation on a NaN give NaN;
  \<open>a / 0\<close> is an infinity for \<open>a \<noteq> 0\<close>; \<^verbatim>\<open>math.Log(0)\<close> is \<open>-\<infinity>\<close> and the logarithm
  of a negative number is NaN; \<^verbatim>\<open>math.Exp(-Inf)\<close> is \<open>0\<close>; \<^verbatim>\<open>math.Round\<close> returns a
  special value as it is; a comparison with a NaN is false. The conversion of an
  infinity or a NaN to \<^verbatim>\<open>int32\<close> is \<open>- 2 ^ 31\<close>, as on amd64.
\<close>

datatype xfloat = Finite real | PosInf | NegInf | NaN

fun x_finite :: "xfloat \<Rightarrow> bool" where
  "x_finite (Finite a) = True"
| "x_finite PosInf = False"
| "x_finite NegInf = False"
| "x_finite NaN = False"

text \<open>The sign of a value (0 for a zero and for NaN), and the infinity of a sign.\<close>

fun x_sgn :: "xfloat \<Rightarrow> real" where
  "x_sgn (Finite a) = sgn a"
| "x_sgn PosInf = 1"
| "x_sgn NegInf = - 1"
| "x_sgn NaN = 0"

definition x_inf :: "real \<Rightarrow> xfloat" where
  "x_inf s = (if s < 0 then NegInf else PosInf)"

fun x_mul :: "xfloat \<Rightarrow> xfloat \<Rightarrow> xfloat" where
  "x_mul (Finite a) (Finite b) = Finite (a * b)"
| "x_mul NaN b = NaN"
| "x_mul a NaN = NaN"
| "x_mul a b = (if x_sgn a * x_sgn b = 0 then NaN else x_inf (x_sgn a * x_sgn b))"

fun x_div :: "xfloat \<Rightarrow> xfloat \<Rightarrow> xfloat" where
  "x_div NaN b = NaN"
| "x_div a NaN = NaN"
| "x_div (Finite a) (Finite b) =
     (if b = 0 then (if a = 0 then NaN else x_inf (sgn a)) else Finite (a / b))"
| "x_div (Finite a) b = Finite 0"
| "x_div a (Finite b) = x_inf (x_sgn a * (if b < 0 then - 1 else 1))"
| "x_div a b = NaN"

fun x_add :: "xfloat \<Rightarrow> xfloat \<Rightarrow> xfloat" where
  "x_add (Finite a) (Finite b) = Finite (a + b)"
| "x_add NaN b = NaN"
| "x_add a NaN = NaN"
| "x_add (Finite a) b = b"
| "x_add a (Finite b) = a"
| "x_add a b = (if a = b then a else NaN)"

fun x_neg :: "xfloat \<Rightarrow> xfloat" where
  "x_neg (Finite a) = Finite (- a)"
| "x_neg PosInf = NegInf"
| "x_neg NegInf = PosInf"
| "x_neg NaN = NaN"

fun x_exp :: "xfloat \<Rightarrow> xfloat" where
  "x_exp (Finite a) = Finite (exp a)"
| "x_exp PosInf = PosInf"
| "x_exp NegInf = Finite 0"
| "x_exp NaN = NaN"

fun x_log :: "xfloat \<Rightarrow> xfloat" where
  "x_log (Finite a) = (if a < 0 then NaN else if a = 0 then NegInf else Finite (ln a))"
| "x_log PosInf = PosInf"
| "x_log NegInf = NaN"
| "x_log NaN = NaN"

fun x_round :: "xfloat \<Rightarrow> xfloat" where
  "x_round (Finite a) = Finite (round_half_away a)"
| "x_round a = a"

fun x_to_int32 :: "xfloat \<Rightarrow> 32 word" where
  "x_to_int32 (Finite a) = trunc_int32 a"
| "x_to_int32 a = word_of_int (- 2147483648)"

fun x_le :: "xfloat \<Rightarrow> xfloat \<Rightarrow> bool" where
  "x_le NaN b = False"
| "x_le a NaN = False"
| "x_le (Finite a) (Finite b) = (a \<le> b)"
| "x_le NegInf b = True"
| "x_le a PosInf = True"
| "x_le a b = False"

definition xfloat_ops :: "xfloat float_ops" where
  "xfloat_ops = \<lparr> f_of_int = (\<lambda>n. Finite (of_int n)), f_mul = x_mul, f_div = x_div,
     f_sub = (\<lambda>a b. x_add a (x_neg b)), f_muladd = (\<lambda>a b c. x_add a (x_mul b c)),
     f_exp = x_exp, f_log = x_log, f_round = x_round, f_to_int32 = x_to_int32,
     f_le = x_le \<rparr>"

subsection \<open>Data\<close>

datatype hilbertDirection = dirNONE | dirUP | dirLEFT | dirDOWN | dirRIGHT

text \<open>\<^verbatim>\<open>type ColorError []float64\<close>: the nil slice is told apart from a slice.\<close>

datatype 'f ColorError = nilError | Vals "'f list"

record 'f errorList =
  el_err :: "'f ColorError list"
  el_head :: int

record 'f Op =
  Ratio :: 'f
  Weights :: "'f list"
  errors :: "'f errorList"
  op_x :: int
  op_y :: int

text \<open>\<^verbatim>\<open>color.NRGBA64\<close>: four 16-bit channels.\<close>

datatype NRGBA64 = NRGBA64 (chR: "16 word") (chG: "16 word") (chB: "16 word") (chA: "16 word")

text \<open>
  \<^verbatim>\<open>anyImage\<close>. The destination \<^verbatim>\<open>draw.Image\<close> and the source \<^verbatim>\<open>image.Image\<close> are
  interfaces of the standard library: the destination is a pixel store \<open>'d\<close> with its
  \<^verbatim>\<open>Set\<close> and its \<^verbatim>\<open>At\<close>, the source its \<^verbatim>\<open>At\<close>, both already composed with
  \<^verbatim>\<open>color.NRGBA64Model.Convert\<close>.
\<close>

record 'd anyImage =
  dst_Set :: "'d \<Rightarrow> int \<Rightarrow> int \<Rightarrow> NRGBA64 \<Rightarrow> 'd"
  dst_At :: "'d \<Rightarrow> int \<Rightarrow> int \<Rightarrow> NRGBA64"
  img_dp :: "int \<times> int"
  src_At :: "int \<Rightarrow> int \<Rightarrow> NRGBA64"
  img_sp :: "int \<times> int"
  img_size :: "int \<times> int"
  numChannels :: int

text \<open>
  One call of \<^verbatim>\<open>DitherPixel\<close>, as the run records it: the pixel, the accumulated error
  it was given, the color it proposed to the destination and the error it returned.
\<close>

record 'f dither_event =
  ev_x :: int
  ev_y :: int
  ev_acc :: "'f list"
  ev_proposed :: NRGBA64
  ev_error :: "'f ColorError"

text \<open>
  The state of a run: the receiver \<^verbatim>\<open>*rs\<close>, the pixels of the destination, and the
  calls of \<^verbatim>\<open>DitherPixel\<close> so far. The last field is the model's own record of the
  calls; the code keeps none.
\<close>

record ('f, 'd) run_state =
  rs :: "'f Op"
  dst :: 'd
  calls :: "'f dither_event list"

subsection \<open>errorList\<close>

definition newErrorList :: "int \<Rightarrow> 'f errorList option" where
  "newErrorList n =
     (if n < 0 then None
      else Some \<lparr> el_err = replicate (nat n) nilError, el_head = 0 \<rparr>)"

definition Get :: "'f errorList \<Rightarrow> int \<Rightarrow> 'f ColorError option" where
  "Get el i =
     (let n = int (length (el_err el)) in
      if n = 0 then None
      else
        let k = (el_head el + i) smod n in
        if 0 \<le> k \<and> k < n then Some (el_err el ! nat k) else None)"

definition Size :: "'f errorList \<Rightarrow> int" where
  "Size el = int (length (el_err el))"

definition Rotate :: "'f errorList \<Rightarrow> 'f ColorError \<Rightarrow> 'f errorList option" where
  "Rotate el val =
     (if 0 \<le> el_head el \<and> el_head el < int (length (el_err el)) then
        let e = (el_err el)[nat (el_head el) := val];
            h = el_head el + 1
        in Some \<lparr> el_err = e, el_head = (if h \<ge> int (length e) then 0 else h) \<rparr>
      else None)"

text \<open>A sequence of \<^verbatim>\<open>Rotate\<close> calls, one per value, in order.\<close>

fun Rotates :: "'f errorList \<Rightarrow> 'f ColorError list \<Rightarrow> 'f errorList option" where
  "Rotates el [] = Some el"
| "Rotates el (v # vs) = Rotate el v \<bind> (\<lambda>el'. Rotates el' vs)"

subsection \<open>The weight curve\<close>

function initWeights_loop ::
  "'f float_ops \<Rightarrow> int \<Rightarrow> 'f \<Rightarrow> nat \<Rightarrow> 'f \<Rightarrow> 'f list \<Rightarrow> 'f list option" where
  "initWeights_loop fl sz m i v weights =
     (if int i < sz then
        (if i < length weights
         then initWeights_loop fl sz m (i + 1) (f_mul fl v m) (weights[i := f_round fl v])
         else None)
      else Some weights)"
  by pat_completeness auto
termination
  by (relation "measure (\<lambda>(fl, sz, m, i, v, weights). nat (sz - int i))") auto

definition initWeights :: "'f float_ops \<Rightarrow> int \<Rightarrow> 'f \<Rightarrow> 'f list option" where
  "initWeights fl sz ratio =
     (if sz < 0 then None
      else
        let weights = replicate (nat sz) (f_of_int fl 0);
            m = f_exp fl (f_div fl (f_log fl ratio) (f_of_int fl (sz - 1)));
            v = f_of_int fl 1
        in initWeights_loop fl sz m 0 v weights)"

definition NewOperation :: "'f float_ops \<Rightarrow> int \<Rightarrow> 'f \<Rightarrow> 'f Op option" where
  "NewOperation fl queueSize ratio =
     do {
       w \<leftarrow> initWeights fl queueSize ratio;
       el \<leftarrow> newErrorList queueSize;
       Some \<lparr> Ratio = ratio, Weights = w, errors = el, op_x = 0, op_y = 0 \<rparr>
     }"

text \<open>
  The check of the command \<^verbatim>\<open>main\<close> before it constructs the engine:
  \<^verbatim>\<open>if ratio <= 0 { panic("Ratio must be positive") }\<close>. The flag \<^verbatim>\<open>size\<close> is a
  \<^verbatim>\<open>uint\<close>, converted with \<^verbatim>\<open>int(queueSize)\<close>, and is not checked; the model takes
  it below \<open>2 ^ 63\<close>, where the conversion keeps the number. What \<^verbatim>\<open>main\<close> does before
  and after (the flags, the files, the decoding, the palette) is not part of the model.
\<close>

definition main_NewOperation :: "'f float_ops \<Rightarrow> nat \<Rightarrow> 'f \<Rightarrow> 'f Op option" where
  "main_NewOperation fl queueSize ratio =
     (if f_le fl ratio (f_of_int fl 0) then None
      else NewOperation fl (int queueSize) ratio)"

subsection \<open>The accumulated error\<close>

text \<open>The inner loop of \<^verbatim>\<open>AccumulatedError\<close>: \<^verbatim>\<open>for j := 0; j < numChannel; j++\<close>.\<close>

function acc_inner ::
  "'f float_ops \<Rightarrow> int \<Rightarrow> 'f ColorError \<Rightarrow> 'f \<Rightarrow> nat \<Rightarrow> 'f list \<Rightarrow> 'f list option" where
  "acc_inner fl numChannel e w j acc =
     (if int j < numChannel then
        (case e of
           nilError \<Rightarrow> acc_inner fl numChannel e w (j + 1) acc
         | Vals v \<Rightarrow>
             if j < length v \<and> j < length acc
             then acc_inner fl numChannel e w (j + 1)
                    (acc[j := f_muladd fl (acc ! j) (v ! j) w])
             else None)
      else Some acc)"
  by pat_completeness auto
termination
  by (relation "measure (\<lambda>(fl, numChannel, e, w, j, acc). nat (numChannel - int j))") auto

text \<open>The outer loop: \<^verbatim>\<open>for i := 0; i < rs.errors.Size(); i++\<close>.\<close>

function acc_outer ::
  "'f float_ops \<Rightarrow> 'f Op \<Rightarrow> int \<Rightarrow> nat \<Rightarrow> 'f list \<Rightarrow> 'f list option" where
  "acc_outer fl opr numChannel i acc =
     (if int i < Size (errors opr) then
        (case Get (errors opr) (int i) of
           None \<Rightarrow> None
         | Some e \<Rightarrow>
             if i < length (Weights opr) then
               (case acc_inner fl numChannel e (Weights opr ! i) 0 acc of
                  None \<Rightarrow> None
                | Some acc' \<Rightarrow> acc_outer fl opr numChannel (i + 1) acc')
             else None)
      else Some acc)"
  by pat_completeness auto
termination
  by (relation "measure (\<lambda>(fl, opr, numChannel, i, acc). nat (Size (errors opr) - int i))") auto

text \<open>The last loop: \<^verbatim>\<open>acc[j] /= rs.Ratio\<close>.\<close>

function acc_div ::
  "'f float_ops \<Rightarrow> 'f \<Rightarrow> int \<Rightarrow> nat \<Rightarrow> 'f list \<Rightarrow> 'f list option" where
  "acc_div fl ratio numChannel j acc =
     (if int j < numChannel then
        (if j < length acc
         then acc_div fl ratio numChannel (j + 1) (acc[j := f_div fl (acc ! j) ratio])
         else None)
      else Some acc)"
  by pat_completeness auto
termination
  by (relation "measure (\<lambda>(fl, ratio, numChannel, j, acc). nat (numChannel - int j))") auto

definition AccumulatedError :: "'f float_ops \<Rightarrow> 'f Op \<Rightarrow> int \<Rightarrow> 'f list option" where
  "AccumulatedError fl opr numChannel =
     (if numChannel < 0 then None
      else
        acc_outer fl opr numChannel 0 (replicate (nat numChannel) (f_of_int fl 0))
          \<bind> acc_div fl (Ratio opr) numChannel 0)"

subsection \<open>The per-pixel step\<close>

definition clamp :: "32 word \<Rightarrow> 16 word" where
  "clamp i = (if i <s 0 then 0 else if 0xffff <s i then 0xffff else ucast i)"

text \<open>
  The color \<^verbatim>\<open>nc\<close> of \<^verbatim>\<open>DitherPixel\<close>: the source color adjusted by the accumulated
  error, in \<^verbatim>\<open>int32\<close> arithmetic; \<^verbatim>\<open>accErr[0]\<close> to \<^verbatim>\<open>accErr[3]\<close> must exist.
\<close>

definition adjust :: "'f float_ops \<Rightarrow> NRGBA64 \<Rightarrow> 'f list \<Rightarrow> NRGBA64 option" where
  "adjust fl sc accErr =
     (if length accErr < 4 then None
      else Some (NRGBA64
        (clamp (ucast (chR sc) + f_to_int32 fl (f_round fl (accErr ! 0))))
        (clamp (ucast (chG sc) + f_to_int32 fl (f_round fl (accErr ! 1))))
        (clamp (ucast (chB sc) + f_to_int32 fl (f_round fl (accErr ! 2))))
        (clamp (ucast (chA sc) + f_to_int32 fl (f_round fl (accErr ! 3))))))"

definition f_of_u16 :: "'f float_ops \<Rightarrow> 16 word \<Rightarrow> 'f" where
  "f_of_u16 fl c = f_of_int fl (uint c)"

definition color_diff :: "'f float_ops \<Rightarrow> NRGBA64 \<Rightarrow> NRGBA64 \<Rightarrow> 'f list" where
  "color_diff fl sc dc =
     [f_sub fl (f_of_u16 fl (chR sc)) (f_of_u16 fl (chR dc)),
      f_sub fl (f_of_u16 fl (chG sc)) (f_of_u16 fl (chG dc)),
      f_sub fl (f_of_u16 fl (chB sc)) (f_of_u16 fl (chB dc)),
      f_sub fl (f_of_u16 fl (chA sc)) (f_of_u16 fl (chA dc))]"

text \<open>
  \<^verbatim>\<open>DitherPixel\<close> returns the new error; the model returns with it the destination
  it has written and the color it proposed.
\<close>

definition DitherPixel ::
  "'f float_ops \<Rightarrow> 'd anyImage \<Rightarrow> 'd \<Rightarrow> int \<Rightarrow> int \<Rightarrow> 'f list
     \<Rightarrow> ('f ColorError \<times> 'd \<times> NRGBA64) option" where
  "DitherPixel fl img d px py accErr =
     (let sc = src_At img (fst (img_sp img) + px) (snd (img_sp img) + py) in
      case adjust fl sc accErr of
        None \<Rightarrow> None
      | Some nc \<Rightarrow>
          let d' = dst_Set img d (fst (img_dp img) + px) (snd (img_dp img) + py) nc;
              dc = dst_At img d' (fst (img_dp img) + px) (snd (img_dp img) + py)
          in Some (Vals (color_diff fl sc dc), d', nc))"

definition in_bounds :: "'d anyImage \<Rightarrow> int \<times> int \<Rightarrow> bool" where
  "in_bounds img p =
     (fst p \<ge> 0 \<and> fst p < fst (img_size img) \<and> snd p \<ge> 0 \<and> snd p < snd (img_size img))"

text \<open>The second half of \<^verbatim>\<open>move\<close>: the switch on the direction.\<close>

fun step :: "hilbertDirection \<Rightarrow> int \<times> int \<Rightarrow> int \<times> int" where
  "step dirLEFT (px, py) = (px - 1, py)"
| "step dirRIGHT (px, py) = (px + 1, py)"
| "step dirUP (px, py) = (px, py - 1)"
| "step dirDOWN (px, py) = (px, py + 1)"
| "step dirNONE (px, py) = (px, py)"

definition cursor :: "('f, 'd) run_state \<Rightarrow> int \<times> int" where
  "cursor s = (op_x (rs s), op_y (rs s))"

definition set_cursor :: "int \<times> int \<Rightarrow> ('f, 'd) run_state \<Rightarrow> ('f, 'd) run_state" where
  "set_cursor p s = s\<lparr> rs := (rs s)\<lparr> op_x := fst p, op_y := snd p \<rparr> \<rparr>"

text \<open>The first half of \<^verbatim>\<open>move\<close>: dither the current pixel.\<close>

definition dither_current ::
  "'f float_ops \<Rightarrow> 'd anyImage \<Rightarrow> ('f, 'd) run_state \<Rightarrow> ('f, 'd) run_state option" where
  "dither_current fl img s =
     do {
       acc \<leftarrow> AccumulatedError fl (rs s) (numChannels img);
       (newError, d', nc) \<leftarrow> DitherPixel fl img (dst s) (op_x (rs s)) (op_y (rs s)) acc;
       el \<leftarrow> Rotate (errors (rs s)) newError;
       Some \<lparr> rs = (rs s)\<lparr> errors := el \<rparr>, dst = d',
              calls = calls s @ [\<lparr> ev_x = op_x (rs s), ev_y = op_y (rs s), ev_acc = acc,
                                  ev_proposed = nc, ev_error = newError \<rparr>] \<rparr>
     }"

definition move ::
  "'f float_ops \<Rightarrow> 'd anyImage \<Rightarrow> hilbertDirection \<Rightarrow> ('f, 'd) run_state
     \<Rightarrow> ('f, 'd) run_state option" where
  "move fl img dir s =
     do {
       s' \<leftarrow> (if in_bounds img (cursor s) then dither_current fl img s else Some s);
       Some (set_cursor (step dir (cursor s')) s')
     }"

subsection \<open>The Hilbert traversal\<close>

text \<open>
  \<^verbatim>\<open>hilbertLevel\<close> recurses on \<open>level - 1\<close> until \<open>level = 1\<close>. Called with
  \<open>level < 1\<close> and one of the four directions, the recursion of the code never reaches
  its base case and the call does not return: the model gives \<open>None\<close> there. A
  \<^verbatim>\<open>switch\<close> with no matching case (\<^verbatim>\<open>dirNONE\<close>) does nothing, at every level.
\<close>

function hilbertLevel ::
  "'f float_ops \<Rightarrow> 'd anyImage \<Rightarrow> int \<Rightarrow> hilbertDirection \<Rightarrow> ('f, 'd) run_state
     \<Rightarrow> ('f, 'd) run_state option" where
  "hilbertLevel fl img level dir s =
     (if level = 1 then
        (case dir of
           dirLEFT \<Rightarrow>
             move fl img dirRIGHT s \<bind> move fl img dirDOWN \<bind> move fl img dirLEFT
         | dirRIGHT \<Rightarrow>
             move fl img dirLEFT s \<bind> move fl img dirUP \<bind> move fl img dirRIGHT
         | dirUP \<Rightarrow>
             move fl img dirDOWN s \<bind> move fl img dirRIGHT \<bind> move fl img dirUP
         | dirDOWN \<Rightarrow>
             move fl img dirUP s \<bind> move fl img dirLEFT \<bind> move fl img dirDOWN
         | dirNONE \<Rightarrow> Some s)
      else if level < 1 \<and> dir \<noteq> dirNONE then None
      else
        (case dir of
           dirLEFT \<Rightarrow>
             do {
               t \<leftarrow> hilbertLevel fl img (level - 1) dirUP s;
               t \<leftarrow> move fl img dirRIGHT t;
               t \<leftarrow> hilbertLevel fl img (level - 1) dirLEFT t;
               t \<leftarrow> move fl img dirDOWN t;
               t \<leftarrow> hilbertLevel fl img (level - 1) dirLEFT t;
               t \<leftarrow> move fl img dirLEFT t;
               hilbertLevel fl img (level - 1) dirDOWN t
             }
         | dirRIGHT \<Rightarrow>
             do {
               t \<leftarrow> hilbertLevel fl img (level - 1) dirDOWN s;
               t \<leftarrow> move fl img dirLEFT t;
               t \<leftarrow> hilbertLevel fl img (level - 1) dirRIGHT t;
               t \<leftarrow> move fl img dirUP t;
               t \<leftarrow> hilbertLevel fl img (level - 1) dirRIGHT t;
               t \<leftarrow> move fl img dirRIGHT t;
               hilbertLevel fl img (level - 1) dirUP t
             }
         | dirUP \<Rightarrow>
             do {
               t \<leftarrow> hilbertLevel fl img (level - 1) dirLEFT s;
               t \<leftarrow> move fl img dirDOWN t;
               t \<leftarrow> hilbertLevel fl img (level - 1) dirUP t;
               t \<leftarrow> move fl img dirRIGHT t;
               t \<leftarrow> hilbertLevel fl img (level - 1) dirUP t;
               t \<leftarrow> move fl img dirUP t;
               hilbertLevel fl img (level - 1) dirRIGHT t
             }
         | dirDOWN \<Rightarrow>
             do {
               t \<leftarrow> hilbertLevel fl img (level - 1) dirRIGHT s;
               t \<leftarrow> move fl img dirUP t;
               t \<leftarrow> hilbertLevel fl img (level - 1) dirDOWN t;
               t \<leftarrow> move fl img dirLEFT t;
               t \<leftarrow> hilbertLevel fl img (level - 1) dirDOWN t;
               t \<leftarrow> move fl img dirDOWN t;
               hilbertLevel fl img (level - 1) dirLEFT t
             }
         | dirNONE \<Rightarrow> Some s))"
  by pat_completeness auto
termination
  by (relation "measure (\<lambda>(fl, img, level, dir, s). nat level)") auto

subsection \<open>Dither\<close>

function log2_loop :: "int \<Rightarrow> int \<Rightarrow> int" where
  "log2_loop val result =
     (if val > 1 then log2_loop (val div 2) (result + 1) else result)"
  by pat_completeness auto
termination
  by (relation "measure (\<lambda>(val, result). nat val)") auto

definition log2 :: "int \<Rightarrow> int" where
  "log2 val = log2_loop val 0"

definition Dither ::
  "'f float_ops \<Rightarrow> 'd anyImage \<Rightarrow> ('f, 'd) run_state \<Rightarrow> ('f, 'd) run_state option" where
  "Dither fl img s =
     (let sideLength = max (fst (img_size img)) (snd (img_size img));
          level0 = log2 sideLength;
          level = (if 2 ^ nat level0 < sideLength then level0 + 1 else level0)
      in (if level > 0 then hilbertLevel fl img level dirUP s else Some s)
           \<bind> move fl img dirNONE)"

text \<open>
  \<^verbatim>\<open>NewImage\<close>: \<open>r\<close> is the destination rectangle (its \<^verbatim>\<open>Min\<close> and \<^verbatim>\<open>Max\<close>),
  \<open>src_max\<close> is \<^verbatim>\<open>src.Bounds().Max\<close>.
\<close>

definition NewImage ::
  "('d \<Rightarrow> int \<Rightarrow> int \<Rightarrow> NRGBA64 \<Rightarrow> 'd) \<Rightarrow> ('d \<Rightarrow> int \<Rightarrow> int \<Rightarrow> NRGBA64)
     \<Rightarrow> (int \<times> int) \<times> (int \<times> int) \<Rightarrow> (int \<Rightarrow> int \<Rightarrow> NRGBA64) \<Rightarrow> int \<times> int \<Rightarrow> int \<times> int
     \<Rightarrow> 'd anyImage" where
  "NewImage set_fn at_fn r src src_max sp =
     (let srcSize = (fst src_max - fst sp, snd src_max - snd sp);
          imgSize = (min (fst srcSize) (fst (snd r) - fst (fst r)),
                     min (snd srcSize) (snd (snd r) - snd (fst r)))
      in \<lparr> dst_Set = set_fn, dst_At = at_fn, img_dp = fst r, src_At = src, img_sp = sp,
           img_size = imgSize, numChannels = 4 \<rparr>)"

subsection \<open>Notions used to state the properties\<close>

text \<open>
  A new ring of \<open>n\<close> slots after a sequence of rotations, and a read of the result.
\<close>

definition rotated :: "int \<Rightarrow> 'f ColorError list \<Rightarrow> 'f errorList option" where
  "rotated n ws = newErrorList n \<bind> (\<lambda>el. Rotates el ws)"

definition Get_of :: "'f errorList option \<Rightarrow> int \<Rightarrow> 'f ColorError option" where
  "Get_of r i = r \<bind> (\<lambda>el. Get el i)"

text \<open>
  The write cursor is inside the backing array; the logical content of the ring is the
  backing array read from the write cursor on, which is the order of \<^verbatim>\<open>Get\<close>.
\<close>

definition ring_ok :: "'f errorList \<Rightarrow> bool" where
  "ring_ok el = (0 \<le> el_head el \<and> el_head el < int (length (el_err el)))"

definition contents :: "'f errorList \<Rightarrow> 'f ColorError list" where
  "contents el = rotate (nat (el_head el)) (el_err el)"

text \<open>
  The state of an engine that \<^verbatim>\<open>NewOperation\<close> built with queue size \<open>q \<ge> 1\<close> and
  that has dithered pixels of a four-channel image since: the write cursor is inside
  the backing array, the backing array and the weights have \<open>q\<close> entries, and every
  entry is nil or has four channels.
\<close>

definition entry_ok :: "nat \<Rightarrow> 'f ColorError \<Rightarrow> bool" where
  "entry_ok n e = (case e of nilError \<Rightarrow> True | Vals v \<Rightarrow> length v = n)"

definition engine_ok :: "int \<Rightarrow> 'f Op \<Rightarrow> bool" where
  "engine_ok q opr =
     (1 \<le> q \<and> ring_ok (errors opr) \<and> length (el_err (errors opr)) = nat q \<and>
      length (Weights opr) = nat q \<and> list_all (entry_ok 4) (el_err (errors opr)))"

text \<open>The pixels dithered so far, in order.\<close>

definition visited :: "('f, 'd) run_state \<Rightarrow> (int \<times> int) list" where
  "visited s = map (\<lambda>e. (ev_x e, ev_y e)) (calls s)"

text \<open>
  One step of the outer loop of \<^verbatim>\<open>AccumulatedError\<close> as a function of the vector:
  a nil entry leaves it as it is, a slice adds its weighted channels.
\<close>

definition acc_step :: "'f float_ops \<Rightarrow> nat \<Rightarrow> 'f ColorError \<Rightarrow> 'f \<Rightarrow> 'f list \<Rightarrow> 'f list" where
  "acc_step fl n e w acc =
     (case e of
        nilError \<Rightarrow> acc
      | Vals v \<Rightarrow> map (\<lambda>k. f_muladd fl (acc ! k) (v ! k) w) [0..<n])"

text \<open>
  The accumulated error in closed form: the weighted sum over the slots in the order
  of \<^verbatim>\<open>Get\<close>, from the zero vector, every channel then divided by the ratio.
\<close>

definition acc_sum :: "'f float_ops \<Rightarrow> nat \<Rightarrow> 'f ColorError list \<Rightarrow> 'f list \<Rightarrow> 'f list" where
  "acc_sum fl n es ws =
     foldl (\<lambda>a (e, w). acc_step fl n e w a) (replicate n (f_of_int fl 0)) (zip es ws)"

definition acc_formula :: "'f float_ops \<Rightarrow> 'f Op \<Rightarrow> nat \<Rightarrow> 'f list" where
  "acc_formula fl opr n =
     map (\<lambda>a. f_div fl a (Ratio opr)) (acc_sum fl n (contents (errors opr)) (Weights opr))"

text \<open>
  A sequence of \<^verbatim>\<open>move\<close> calls, the positions of the cursor at these calls, and the
  position it is left at.
\<close>

fun moves ::
  "'f float_ops \<Rightarrow> 'd anyImage \<Rightarrow> hilbertDirection list \<Rightarrow> ('f, 'd) run_state
     \<Rightarrow> ('f, 'd) run_state option" where
  "moves fl img [] s = Some s"
| "moves fl img (d # ds) s = move fl img d s \<bind> moves fl img ds"

fun cells :: "int \<times> int \<Rightarrow> hilbertDirection list \<Rightarrow> (int \<times> int) list" where
  "cells p [] = []"
| "cells p (d # ds) = p # cells (step d p) ds"

fun endpos :: "int \<times> int \<Rightarrow> hilbertDirection list \<Rightarrow> int \<times> int" where
  "endpos p [] = p"
| "endpos p (d # ds) = endpos (step d p) ds"

text \<open>The moves that \<^verbatim>\<open>hilbertLevel\<close> makes, as a list.\<close>

fun hpath :: "nat \<Rightarrow> hilbertDirection \<Rightarrow> hilbertDirection list" where
  "hpath 0 d = []"
| "hpath (Suc n) dirLEFT =
     hpath n dirUP @ [dirRIGHT] @ hpath n dirLEFT @ [dirDOWN] @ hpath n dirLEFT @ [dirLEFT]
       @ hpath n dirDOWN"
| "hpath (Suc n) dirRIGHT =
     hpath n dirDOWN @ [dirLEFT] @ hpath n dirRIGHT @ [dirUP] @ hpath n dirRIGHT @ [dirRIGHT]
       @ hpath n dirUP"
| "hpath (Suc n) dirUP =
     hpath n dirLEFT @ [dirDOWN] @ hpath n dirUP @ [dirRIGHT] @ hpath n dirUP @ [dirUP]
       @ hpath n dirRIGHT"
| "hpath (Suc n) dirDOWN =
     hpath n dirRIGHT @ [dirUP] @ hpath n dirDOWN @ [dirLEFT] @ hpath n dirDOWN @ [dirDOWN]
       @ hpath n dirLEFT"
| "hpath (Suc n) dirNONE = []"

text \<open>The square of side \<open>n\<close> whose corner of least coordinates is \<open>(a, b)\<close>.\<close>

definition box :: "int \<Rightarrow> int \<Rightarrow> int \<Rightarrow> (int \<times> int) set" where
  "box a b n = {(u, v). a \<le> u \<and> u < a + n \<and> b \<le> v \<and> v < b + n}"

text \<open>
  The cells of a path together with the position it ends at, and a list that
  enumerates a set of cells without repetition.
\<close>

definition trail :: "int \<times> int \<Rightarrow> hilbertDirection list \<Rightarrow> (int \<times> int) list" where
  "trail p ds = cells p ds @ [endpos p ds]"

definition covers :: "(int \<times> int) list \<Rightarrow> (int \<times> int) set \<Rightarrow> bool" where
  "covers ps S = (distinct ps \<and> set ps = S)"

text \<open>The order of the curve that \<^verbatim>\<open>Dither\<close> computes from the size of the image.\<close>

definition dither_level :: "'d anyImage \<Rightarrow> int" where
  "dither_level img =
     (let sideLength = max (fst (img_size img)) (snd (img_size img));
          level0 = log2 sideLength
      in if 2 ^ nat level0 < sideLength then level0 + 1 else level0)"

subsection \<open>Concrete inputs\<close>

text \<open>
  A destination that stores every color as it is proposed (an \<^verbatim>\<open>image.NRGBA64\<close>), as a
  function from pixels to colors; a mid-gray opaque source of a given size drawn on
  it from the origin; and the engine \<^verbatim>\<open>NewOperation(2, 2.0)\<close> before its first pixel.
\<close>

definition keep_Set :: "(int \<times> int \<Rightarrow> NRGBA64) \<Rightarrow> int \<Rightarrow> int \<Rightarrow> NRGBA64 \<Rightarrow> (int \<times> int \<Rightarrow> NRGBA64)" where
  "keep_Set d px py c = d((px, py) := c)"

definition keep_At :: "(int \<times> int \<Rightarrow> NRGBA64) \<Rightarrow> int \<Rightarrow> int \<Rightarrow> NRGBA64" where
  "keep_At d px py = d (px, py)"

definition blank :: "int \<times> int \<Rightarrow> NRGBA64" where
  "blank = (\<lambda>p. NRGBA64 0 0 0 0)"

definition gray_image :: "int \<Rightarrow> int \<Rightarrow> (int \<times> int \<Rightarrow> NRGBA64) anyImage" where
  "gray_image w h =
     NewImage keep_Set keep_At ((0, 0), (w, h)) (\<lambda>px py. NRGBA64 0x8000 0x8000 0x8000 0xffff)
       (w, h) (0, 0)"

definition fresh_engine :: "real Op" where
  "fresh_engine = \<lparr> Ratio = 2, Weights = [1, 2],
     errors = \<lparr> el_err = [nilError, nilError], el_head = 0 \<rparr>, op_x = 0, op_y = 0 \<rparr>"

definition start :: "'f Op \<Rightarrow> 'd \<Rightarrow> ('f, 'd) run_state" where
  "start opr d = \<lparr> rs = opr, dst = d, calls = [] \<rparr>"

text \<open>
  The colors proposed, the accumulated errors given and the errors returned in a run,
  in order.
\<close>

definition proposed_colors :: "('f, 'd) run_state option \<Rightarrow> NRGBA64 list" where
  "proposed_colors r = (case r of None \<Rightarrow> [] | Some s \<Rightarrow> map ev_proposed (calls s))"

definition accumulated_errors :: "('f, 'd) run_state option \<Rightarrow> 'f list list" where
  "accumulated_errors r = (case r of None \<Rightarrow> [] | Some s \<Rightarrow> map ev_acc (calls s))"

definition returned_errors :: "('f, 'd) run_state option \<Rightarrow> 'f ColorError list" where
  "returned_errors r = (case r of None \<Rightarrow> [] | Some s \<Rightarrow> map ev_error (calls s))"

subsection \<open>A destination of full fidelity\<close>

text \<open>Reading a pixel back returns the color that was proposed for it.\<close>

definition full_fidelity :: "'d anyImage \<Rightarrow> bool" where
  "full_fidelity img = (\<forall>d px py c. dst_At img (dst_Set img d px py c) px py = c)"

definition zero_vec :: "'f float_ops \<Rightarrow> 'f list" where
  "zero_vec fl = replicate 4 (f_of_int fl 0)"

text \<open>
  The facts of binary64 arithmetic that the zero error rests on, for the weights and
  the ratio of an engine: \<open>0 + 0 * w\<close> is \<open>0\<close> for every weight \<open>w\<close> (the weights are
  finite), \<open>0 / ratio\<close> is \<open>0\<close> (the ratio is neither zero nor a NaN),
  \<^verbatim>\<open>int32(math.Round(0))\<close> is \<open>0\<close>, and \<open>c - c\<close> is \<open>0\<close> for the value of a channel.
\<close>

definition zero_laws :: "'f float_ops \<Rightarrow> 'f Op \<Rightarrow> bool" where
  "zero_laws fl opr =
     ((\<forall>w \<in> set (Weights opr). f_muladd fl (f_of_int fl 0) (f_of_int fl 0) w = f_of_int fl 0) \<and>
      f_div fl (f_of_int fl 0) (Ratio opr) = f_of_int fl 0 \<and>
      f_to_int32 fl (f_round fl (f_of_int fl 0)) = 0 \<and>
      (\<forall>c. f_sub fl (f_of_u16 fl c) (f_of_u16 fl c) = f_of_int fl 0))"

text \<open>Every slot of the history is nil or the zero error.\<close>

definition zero_history :: "'f float_ops \<Rightarrow> 'f Op \<Rightarrow> bool" where
  "zero_history fl opr =
     list_all (\<lambda>e. e = nilError \<or> e = Vals (zero_vec fl)) (el_err (errors opr))"

text \<open>
  A call of \<^verbatim>\<open>DitherPixel\<close> that was given the zero accumulated error, proposed the
  source color itself and returned the zero error.
\<close>

definition zero_event :: "'f float_ops \<Rightarrow> 'd anyImage \<Rightarrow> 'f dither_event \<Rightarrow> bool" where
  "zero_event fl img e =
     (ev_acc e = zero_vec fl \<and> ev_error e = Vals (zero_vec fl) \<and>
      ev_proposed e = src_At img (fst (img_sp img) + ev_x e) (snd (img_sp img) + ev_y e))"

text \<open>
  The engines \<^verbatim>\<open>NewOperation(2, 2.0)\<close> and \<^verbatim>\<open>NewOperation(2, 0)\<close> before their first
  pixel, in the arithmetic with special values. With the ratio 0 the weight curve is
  computed from \<^verbatim>\<open>math.Exp(math.Log(0) / 1)\<close>, which is \<open>0\<close>: the weights are
  \<^verbatim>\<open>Round(1)\<close> and \<^verbatim>\<open>Round(1 * 0)\<close>.
\<close>

definition ratio_two_engine :: "xfloat Op" where
  "ratio_two_engine = \<lparr> Ratio = Finite 2, Weights = [Finite 1, Finite 2],
     errors = \<lparr> el_err = [nilError, nilError], el_head = 0 \<rparr>, op_x = 0, op_y = 0 \<rparr>"

definition zero_ratio_engine :: "xfloat Op" where
  "zero_ratio_engine = \<lparr> Ratio = Finite 0, Weights = [Finite 1, Finite 0],
     errors = \<lparr> el_err = [nilError, nilError], el_head = 0 \<rparr>, op_x = 0, op_y = 0 \<rparr>"

subsection \<open>The proposed color of the specification, and an input that saturates\<close>

text \<open>
  The color that is to be proposed according to the specification: per channel the
  source value plus the rounded accumulated error, as integers, clamped into
  \<open>[0, 0xffff]\<close>. The argument \<open>r\<close> is the rounded accumulated error of the channel.
\<close>

definition claimed_channel :: "16 word \<Rightarrow> int \<Rightarrow> 16 word" where
  "claimed_channel c r = word_of_int (max 0 (min 0xffff (uint c + r)))"

text \<open>
  A destination with the single color opaque black (an \<^verbatim>\<open>image.Paletted\<close> whose
  palette is \<^verbatim>\<open>{color.Black}\<close>): whatever is proposed, a pixel reads back as black.
  An opaque white source of a given size is drawn on it from the origin.
\<close>

definition black_Set :: "unit \<Rightarrow> int \<Rightarrow> int \<Rightarrow> NRGBA64 \<Rightarrow> unit" where
  "black_Set d px py c = ()"

definition black_At :: "unit \<Rightarrow> int \<Rightarrow> int \<Rightarrow> NRGBA64" where
  "black_At d px py = NRGBA64 0 0 0 0xffff"

definition white_on_black :: "int \<Rightarrow> int \<Rightarrow> unit anyImage" where
  "white_on_black w h =
     NewImage black_Set black_At ((0, 0), (w, h))
       (\<lambda>px py. NRGBA64 0xffff 0xffff 0xffff 0xffff) (w, h) (0, 0)"

text \<open>
  The engine \<^verbatim>\<open>NewOperation(2, 1.0/32768)\<close> before its first pixel: the weights are
  \<^verbatim>\<open>Round(1)\<close> and \<^verbatim>\<open>Round(1/32768)\<close>.
\<close>

definition small_ratio_engine :: "real Op" where
  "small_ratio_engine = \<lparr> Ratio = 1 / 32768, Weights = [1, 0],
     errors = \<lparr> el_err = [nilError, nilError], el_head = 0 \<rparr>, op_x = 0, op_y = 0 \<rparr>"


section \<open>Properties\<close>

declare acc_inner.simps [simp del] acc_outer.simps [simp del] acc_div.simps [simp del]
  initWeights_loop.simps [simp del] log2_loop.simps [simp del] hilbertLevel.simps [simp del]


subsection \<open>The ring buffer of errors\<close>

lemma length_contents: "length (contents el) = length (el_err el)"
  by (simp add: contents_def)

lemma Get_contents:
  assumes "ring_ok el" and "0 \<le> i" and "i < int (length (el_err el))"
  shows "Get el i = Some (contents el ! nat i)"
proof -
  let ?n = "int (length (el_err el))"
  have n: "0 < ?n" using assms by linarith
  have nn: "0 \<le> el_head el + i" using assms by (simp add: ring_ok_def)
  have sm: "(el_head el + i) smod ?n = (el_head el + i) mod ?n"
    using nn n by (simp add: signed_modulo_int_def sgn_if abs_if)
  have rng: "0 \<le> (el_head el + i) mod ?n" "(el_head el + i) mod ?n < ?n"
    using n by simp_all
  have idx: "nat ((el_head el + i) mod ?n) = (nat (el_head el) + nat i) mod length (el_err el)"
    using nn assms by (simp add: ring_ok_def nat_mod_distrib nat_add_distrib)
  have "contents el ! nat i = el_err el ! ((nat (el_head el) + nat i) mod length (el_err el))"
    using assms by (simp add: contents_def nth_rotate)
  then show ?thesis
    using sm rng idx n by (simp add: Get_def Let_def)
qed

lemma Rotate_contents:
  assumes "ring_ok el"
  shows "\<exists>el'. Rotate el v = Some el' \<and> ring_ok el' \<and>
           length (el_err el') = length (el_err el) \<and>
           contents el' = tl (contents el) @ [v]"
proof -
  let ?h = "nat (el_head el)" and ?xs = "el_err el"
  have h: "?h < length ?xs" "0 \<le> el_head el"
    using assms by (simp_all add: ring_ok_def nat_less_iff)
  have hh: "el_head el < int (length ?xs)" "?xs \<noteq> []"
    using assms by (auto simp: ring_ok_def)
  have c: "contents el = drop ?h ?xs @ take ?h ?xs"
    using h by (simp add: contents_def rotate_drop_take)
  have tlc: "tl (contents el) = drop (Suc ?h) ?xs @ take ?h ?xs"
    using h by (simp add: c Cons_nth_drop_Suc [symmetric])
  show ?thesis
  proof (cases "el_head el + 1 \<ge> int (length ?xs)")
    case True
    then have e: "Suc ?h = length ?xs" using h by linarith
    have "contents \<lparr>el_err = ?xs[?h := v], el_head = 0\<rparr> = take ?h ?xs @ [v]"
      using h e by (simp add: contents_def upd_conv_take_nth_drop)
    then show ?thesis using True h hh e tlc
      by (simp add: Rotate_def Let_def ring_ok_def)
  next
    case False
    then have lt: "Suc ?h < length ?xs" using h by linarith
    have "contents \<lparr>el_err = ?xs[?h := v], el_head = el_head el + 1\<rparr>
            = drop (Suc ?h) ?xs @ take ?h ?xs @ [v]"
      using h lt by (simp add: contents_def rotate_drop_take nat_add_distrib take_Suc_conv_app_nth)
    then show ?thesis using False h hh lt tlc
      by (simp add: Rotate_def Let_def ring_ok_def)
  qed
qed

lemma Rotates_contents:
  assumes "ring_ok el"
  shows "\<exists>el'. Rotates el vs = Some el' \<and> ring_ok el' \<and>
           length (el_err el') = length (el_err el) \<and>
           contents el' = drop (length vs) (contents el @ vs)"
  using assms
proof (induction vs arbitrary: el)
  case Nil
  then show ?case by simp
next
  case (Cons v vs)
  from Rotate_contents [OF Cons.prems, of v] obtain el1 where
    r: "Rotate el v = Some el1" "ring_ok el1" "length (el_err el1) = length (el_err el)"
       "contents el1 = tl (contents el) @ [v]" by blast
  from Cons.IH [OF r(2)] obtain el2 where
    s: "Rotates el1 vs = Some el2" "ring_ok el2" "length (el_err el2) = length (el_err el1)"
       "contents el2 = drop (length vs) (contents el1 @ vs)" by blast
  have ne: "contents el \<noteq> []"
    using Cons.prems length_contents [of el] by (auto simp: ring_ok_def)
  have "drop (length vs) ((tl (contents el) @ [v]) @ vs)
          = drop (Suc (length vs)) (contents el @ v # vs)"
    using ne by (cases "contents el") simp_all
  then show ?case using r s by simp
qed

lemma rotated_contents:
  assumes "1 \<le> n"
  shows "\<exists>el. rotated n ws = Some el \<and> ring_ok el \<and> length (el_err el) = nat n \<and>
           contents el = drop (length ws) (replicate (nat n) nilError @ ws)"
proof -
  let ?el0 = "\<lparr>el_err = replicate (nat n) nilError, el_head = 0\<rparr> :: 'a errorList"
  have ok: "ring_ok ?el0" using assms by (simp add: ring_ok_def)
  have c0: "contents ?el0 = replicate (nat n) nilError" by (simp add: contents_def)
  from Rotates_contents [OF ok, of ws] c0 assms show ?thesis
    by (auto simp: rotated_def newErrorList_def)
qed

text \<open>
  Claim C2, as the code has it. For a ring of capacity \<open>n \<ge> 1\<close> and any sequence \<open>ws\<close>
  of rotated values, \<^verbatim>\<open>Get(i)\<close> for \<open>0 \<le> i < n\<close> returns the entry written
  \<open>n - 1 - i\<close> rotations before the last one, and nil when fewer rotations were made:
  \<^verbatim>\<open>Get(n-1)\<close> is the most recent write and \<^verbatim>\<open>Get(0)\<close> the oldest one kept. After
  exactly \<open>n\<close> rotations \<^verbatim>\<open>Get(0)\<close> is the first write and \<^verbatim>\<open>Get(n-1)\<close> the last;
  after \<open>n + 1\<close> rotations \<^verbatim>\<open>Get(i)\<close> is the write \<open>i + 1\<close>, so the slot of the first
  write has been overwritten.
\<close>

theorem C2_Get_oldest_first:
  assumes "1 \<le> n" and "0 \<le> i" and "i < n"
  shows "Get_of (rotated n ws) i =
           Some (if int (length ws) + i < n then nilError
                 else ws ! nat (int (length ws) + i - n))"
proof -
  from rotated_contents [OF assms(1), of ws] obtain el where
    el: "rotated n ws = Some el" "ring_ok el" "length (el_err el) = nat n"
        "contents el = drop (length ws) (replicate (nat n) nilError @ ws)" by blast
  have g: "Get el i = Some (contents el ! nat i)"
    using Get_contents [OF el(2) assms(2)] el(3) assms by simp
  have "length ws \<le> length (replicate (nat n) nilError @ ws)" by simp
  then have "contents el ! nat i = (replicate (nat n) nilError @ ws) ! (length ws + nat i)"
    by (simp only: el(4) nth_drop)
  also have "\<dots> = (if int (length ws) + i < n then nilError
                 else ws ! nat (int (length ws) + i - n))"
    using assms by (auto simp: nth_append nat_add_distrib nat_diff_distrib intro: arg_cong [where f = "(!) ws"])
  finally show ?thesis using el(1) g by (simp add: Get_of_def)
qed

text \<open>Capacity 3 and four rotations: the first write is gone, the last is at index 2.\<close>

theorem C2_witness:
  "Get_of (rotated 3 [Vals [1::int], Vals [2], Vals [3], Vals [4]]) 0 = Some (Vals [2])
   \<and> Get_of (rotated 3 [Vals [1::int], Vals [2], Vals [3], Vals [4]]) 2 = Some (Vals [4])"
  using C2_Get_oldest_first [of 3 0 "[Vals [1::int], Vals [2], Vals [3], Vals [4]]"]
        C2_Get_oldest_first [of 3 2 "[Vals [1::int], Vals [2], Vals [3], Vals [4]]"]
  by simp

text \<open>
  Claim C2 as stated fails: with capacity 2 and the writes \<open>[1]\<close>, \<open>[2]\<close>,
  \<^verbatim>\<open>Get(0)\<close> is the first write and \<^verbatim>\<open>Get(1)\<close> the most recent one.
\<close>

theorem C2_counterexample:
  "Get_of (rotated 2 [Vals [1::int], Vals [2]]) 0 = Some (Vals [1])
   \<and> Get_of (rotated 2 [Vals [1::int], Vals [2]]) 1 = Some (Vals [2])"
  by (simp add: Get_of_def rotated_def newErrorList_def Rotate_def Get_def Let_def signed_modulo_int_def)


subsection \<open>The loops of AccumulatedError\<close>

lemma acc_inner_nil: "acc_inner fl n nilError w j acc = Some acc"
proof (induction "nat (n - int j)" arbitrary: j)
  case 0
  then show ?case by (subst acc_inner.simps) simp
next
  case (Suc k)
  then have "k = nat (n - int (j + 1))" by simp
  from Suc(1) [OF this] show ?case by (subst acc_inner.simps) simp
qed

lemma acc_inner_Vals:
  assumes "length v = n" and "length acc = n" and "j \<le> n"
  shows "acc_inner fl (int n) (Vals v) w j acc =
           Some (take j acc @ map (\<lambda>k. f_muladd fl (acc ! k) (v ! k) w) [j..<n])"
  using assms
proof (induction "n - j" arbitrary: j acc)
  case 0
  then show ?case by (subst acc_inner.simps) simp
next
  case (Suc d)
  let ?x = "f_muladd fl (acc ! j) (v ! j) w"
  have jn: "j < n" using Suc by simp
  have ih: "acc_inner fl (int n) (Vals v) w (j + 1) (acc[j := ?x]) =
              Some (take (j + 1) (acc[j := ?x]) @
                    map (\<lambda>k. f_muladd fl (acc[j := ?x] ! k) (v ! k) w) [j + 1..<n])"
    using Suc by (intro Suc(1)) simp_all
  have t: "take (j + 1) (acc[j := ?x]) = take j acc @ [?x]"
    using jn Suc.prems by (simp add: take_Suc_conv_app_nth)
  have m: "map (\<lambda>k. f_muladd fl (acc[j := ?x] ! k) (v ! k) w) [j + 1..<n]
             = map (\<lambda>k. f_muladd fl (acc ! k) (v ! k) w) [j + 1..<n]"
    by (rule map_cong) simp_all
  have u: "[j..<n] = j # [j + 1..<n]" using jn by (simp add: upt_conv_Cons)
  show ?case
    using jn Suc.prems ih t m u by (subst acc_inner.simps) simp
qed

lemma acc_inner_step:
  assumes "entry_ok n e" and "length acc = n"
  shows "acc_inner fl (int n) e w 0 acc = Some (acc_step fl n e w acc)"
proof (cases e)
  case nilError
  then show ?thesis by (simp add: acc_inner_nil acc_step_def)
next
  case (Vals v)
  then show ?thesis using assms acc_inner_Vals [of v n acc 0 fl w]
    by (simp add: acc_step_def entry_ok_def)
qed

lemma length_acc_step:
  "entry_ok n e \<Longrightarrow> length acc = n \<Longrightarrow> length (acc_step fl n e w acc) = n"
  by (cases e) (simp_all add: acc_step_def)

lemma length_foldl_acc_step:
  "list_all (entry_ok n) (map fst ews) \<Longrightarrow> length acc = n \<Longrightarrow>
     length (foldl (\<lambda>a (e, w). acc_step fl n e w a) acc ews) = n"
  by (induction ews arbitrary: acc) (auto simp: length_acc_step)

lemma set_contents: "set (contents el) = set (el_err el)"
  by (simp add: contents_def)

lemma list_all_contents: "list_all P (contents el) = list_all P (el_err el)"
  by (simp add: list_all_iff set_contents)

lemma acc_outer_fold:
  assumes "ring_ok (errors opr)" and "length (Weights opr) = length (el_err (errors opr))"
    and "list_all (entry_ok n) (el_err (errors opr))" and "length acc = n"
    and "i \<le> length (el_err (errors opr))"
  shows "acc_outer fl opr (int n) i acc =
           Some (foldl (\<lambda>a (e, w). acc_step fl n e w a) acc
                   (drop i (zip (contents (errors opr)) (Weights opr))))"
  using assms(4,5)
proof (induction "length (el_err (errors opr)) - i" arbitrary: i acc)
  case 0
  then show ?case by (subst acc_outer.simps) (simp add: Size_def length_contents)
next
  case (Suc d)
  let ?el = "errors opr" and ?N = "length (el_err (errors opr))"
  have iN: "i < ?N" using Suc by simp
  have g: "Get ?el (int i) = Some (contents ?el ! i)"
    using Get_contents [OF assms(1), of "int i"] iN by simp
  have "list_all (entry_ok n) (contents ?el)"
    using assms(3) by (simp add: list_all_contents)
  then have ok: "entry_ok n (contents ?el ! i)"
    using iN by (simp add: list_all_length length_contents)
  have inner: "acc_inner fl (int n) (contents ?el ! i) (Weights opr ! i) 0 acc
                 = Some (acc_step fl n (contents ?el ! i) (Weights opr ! i) acc)"
    using acc_inner_step [OF ok Suc.prems(1)] .
  have len: "length (acc_step fl n (contents ?el ! i) (Weights opr ! i) acc) = n"
    using length_acc_step [OF ok Suc.prems(1)] .
  have ih: "acc_outer fl opr (int n) (i + 1)
              (acc_step fl n (contents ?el ! i) (Weights opr ! i) acc) =
            Some (foldl (\<lambda>a (e, w). acc_step fl n e w a)
                   (acc_step fl n (contents ?el ! i) (Weights opr ! i) acc)
                   (drop (i + 1) (zip (contents ?el) (Weights opr))))"
    using Suc(2) iN len by (intro Suc(1)) simp_all
  have d: "drop i (zip (contents ?el) (Weights opr))
             = (contents ?el ! i, Weights opr ! i) # drop (i + 1) (zip (contents ?el) (Weights opr))"
    using iN assms(2) by (simp add: Cons_nth_drop_Suc [symmetric] length_contents)
  show ?case
    using iN assms(2) g inner ih d by (subst acc_outer.simps) (simp add: Size_def)
qed

lemma acc_div_map:
  assumes "length acc = n" and "j \<le> n"
  shows "acc_div fl r (int n) j acc = Some (take j acc @ map (\<lambda>a. f_div fl a r) (drop j acc))"
  using assms
proof (induction "n - j" arbitrary: j acc)
  case 0
  then show ?case by (subst acc_div.simps) simp
next
  case (Suc d)
  let ?x = "f_div fl (acc ! j) r"
  have jn: "j < n" using Suc by simp
  have ih: "acc_div fl r (int n) (j + 1) (acc[j := ?x]) =
              Some (take (j + 1) (acc[j := ?x]) @ map (\<lambda>a. f_div fl a r) (drop (j + 1) (acc[j := ?x])))"
    using Suc by (intro Suc(1)) simp_all
  have t: "take (j + 1) (acc[j := ?x]) = take j acc @ [?x]"
    using jn Suc.prems by (simp add: take_Suc_conv_app_nth)
  have dr: "drop j acc = acc ! j # drop (j + 1) acc"
    using jn Suc.prems by (simp add: Cons_nth_drop_Suc)
  show ?case
    using jn Suc.prems ih t dr by (subst acc_div.simps) simp
qed

lemma length_acc_sum:
  "list_all (entry_ok n) es \<Longrightarrow> length ws = length es \<Longrightarrow> length (acc_sum fl n es ws) = n"
  unfolding acc_sum_def
  by (rule length_foldl_acc_step) simp_all

lemma AccumulatedError_formula:
  assumes "engine_ok q opr"
  shows "AccumulatedError fl opr 4 = Some (acc_formula fl opr 4)"
proof -
  let ?el = "errors opr"
  have a: "ring_ok ?el" "length (Weights opr) = length (el_err ?el)"
    "list_all (entry_ok 4) (el_err ?el)"
    using assms by (simp_all add: engine_ok_def)
  have o: "acc_outer fl opr (int 4) 0 (replicate 4 (f_of_int fl 0))
             = Some (acc_sum fl 4 (contents ?el) (Weights opr))"
    using acc_outer_fold [OF a, of "replicate 4 (f_of_int fl 0)" 0 fl] by (simp add: acc_sum_def)
  have l: "length (acc_sum fl 4 (contents ?el) (Weights opr)) = 4"
    using a by (intro length_acc_sum) (simp_all add: list_all_contents length_contents)
  have d: "acc_div fl (Ratio opr) (int 4) 0 (acc_sum fl 4 (contents ?el) (Weights opr))
             = Some (acc_formula fl opr 4)"
    using acc_div_map [OF l, of 0 fl "Ratio opr"] by (simp add: acc_formula_def)
  show ?thesis using o d by (simp add: AccumulatedError_def)
qed

lemma length_acc_formula: "engine_ok q opr \<Longrightarrow> length (acc_formula fl opr 4) = 4"
  by (simp add: acc_formula_def engine_ok_def length_acc_sum list_all_contents length_contents)


subsection \<open>One move\<close>

lemma adjust_Some:
  "length acc = 4 \<Longrightarrow> \<exists>nc. adjust fl sc acc = Some nc"
  by (simp add: adjust_def)

lemma length_color_diff: "length (color_diff fl sc dc) = 4"
  by (simp add: color_diff_def)

lemma dither_current_ok:
  assumes "engine_ok q (rs s)" and "numChannels img = 4"
  shows "\<exists>el' nc.
           adjust fl (src_At img (fst (img_sp img) + op_x (rs s)) (snd (img_sp img) + op_y (rs s)))
             (acc_formula fl (rs s) 4) = Some nc \<and>
           Rotate (errors (rs s))
             (Vals (color_diff fl
                (src_At img (fst (img_sp img) + op_x (rs s)) (snd (img_sp img) + op_y (rs s)))
                (dst_At img
                   (dst_Set img (dst s) (fst (img_dp img) + op_x (rs s))
                      (snd (img_dp img) + op_y (rs s)) nc)
                   (fst (img_dp img) + op_x (rs s)) (snd (img_dp img) + op_y (rs s)))))
             = Some el' \<and>
           dither_current fl img s =
             Some \<lparr> rs = (rs s)\<lparr> errors := el' \<rparr>,
                    dst = dst_Set img (dst s) (fst (img_dp img) + op_x (rs s))
                            (snd (img_dp img) + op_y (rs s)) nc,
                    calls = calls s @
                      [\<lparr> ev_x = op_x (rs s), ev_y = op_y (rs s),
                         ev_acc = acc_formula fl (rs s) 4, ev_proposed = nc,
                         ev_error = Vals (color_diff fl
                           (src_At img (fst (img_sp img) + op_x (rs s))
                              (snd (img_sp img) + op_y (rs s)))
                           (dst_At img
                              (dst_Set img (dst s) (fst (img_dp img) + op_x (rs s))
                                 (snd (img_dp img) + op_y (rs s)) nc)
                              (fst (img_dp img) + op_x (rs s))
                              (snd (img_dp img) + op_y (rs s)))) \<rparr>] \<rparr>"
proof -
  let ?sc = "src_At img (fst (img_sp img) + op_x (rs s)) (snd (img_sp img) + op_y (rs s))"
  have acc: "AccumulatedError fl (rs s) (numChannels img) = Some (acc_formula fl (rs s) 4)"
    using AccumulatedError_formula [OF assms(1)] assms(2) by simp
  obtain nc where nc: "adjust fl ?sc (acc_formula fl (rs s) 4) = Some nc"
    using adjust_Some [OF length_acc_formula [OF assms(1)]] by blast
  let ?d = "dst_Set img (dst s) (fst (img_dp img) + op_x (rs s)) (snd (img_dp img) + op_y (rs s)) nc"
  let ?e = "Vals (color_diff fl ?sc
               (dst_At img ?d (fst (img_dp img) + op_x (rs s)) (snd (img_dp img) + op_y (rs s))))"
  have "ring_ok (errors (rs s))" using assms(1) by (simp add: engine_ok_def)
  from Rotate_contents [OF this, of ?e] obtain el' where el': "Rotate (errors (rs s)) ?e = Some el'"
    by blast
  show ?thesis
    using acc nc el' by (simp add: dither_current_def DitherPixel_def Let_def)
qed

lemma Rotate_engine_ok:
  assumes "engine_ok q opr" and "entry_ok 4 e" and "Rotate (errors opr) e = Some el'"
  shows "engine_ok q (opr\<lparr> errors := el' \<rparr>)"
proof -
  have r: "ring_ok (errors opr)" using assms(1) by (simp add: engine_ok_def)
  from Rotate_contents [OF r, of e] assms(3) have
    p: "ring_ok el'" "length (el_err el') = length (el_err (errors opr))"
       "contents el' = tl (contents (errors opr)) @ [e]" by auto
  have "list_all (entry_ok 4) (contents (errors opr))"
    using assms(1) by (simp add: engine_ok_def list_all_contents)
  then have "list_all (entry_ok 4) (tl (contents (errors opr)) @ [e])"
    using assms(2) by (cases "contents (errors opr)") simp_all
  then have "list_all (entry_ok 4) (el_err el')"
    using p(3) list_all_contents [of "entry_ok 4" el'] by simp
  then show ?thesis using assms(1) p by (simp add: engine_ok_def)
qed

lemma cursor_set_cursor [simp]: "cursor (set_cursor p s) = p"
  by (simp add: cursor_def set_cursor_def)

lemma set_cursor_fields [simp]:
  "dst (set_cursor p s) = dst s" "calls (set_cursor p s) = calls s"
  "errors (rs (set_cursor p s)) = errors (rs s)" "Weights (rs (set_cursor p s)) = Weights (rs s)"
  "Ratio (rs (set_cursor p s)) = Ratio (rs s)" "visited (set_cursor p s) = visited s"
  by (simp_all add: set_cursor_def visited_def)

lemma engine_ok_set_cursor [simp]: "engine_ok q (rs (set_cursor p s)) = engine_ok q (rs s)"
  by (simp add: engine_ok_def)

lemma move_out_of_bounds:
  "\<not> in_bounds img (cursor s) \<Longrightarrow> move fl img dir s = Some (set_cursor (step dir (cursor s)) s)"
  by (simp add: move_def)

lemma move_ok:
  assumes "engine_ok q (rs s)" and "numChannels img = 4"
  shows "\<exists>s'. move fl img dir s = Some s' \<and> engine_ok q (rs s') \<and>
           cursor s' = step dir (cursor s) \<and>
           visited s' = visited s @ (if in_bounds img (cursor s) then [cursor s] else []) \<and>
           Ratio (rs s') = Ratio (rs s) \<and> Weights (rs s') = Weights (rs s)"
proof (cases "in_bounds img (cursor s)")
  case False
  then show ?thesis using assms(1) by (simp add: move_out_of_bounds)
next
  case True
  from dither_current_ok [OF assms, of fl] obtain el' nc e where
    r: "Rotate (errors (rs s)) (Vals (color_diff fl
          (src_At img (fst (img_sp img) + op_x (rs s)) (snd (img_sp img) + op_y (rs s))) e)) = Some el'"
    and d: "dither_current fl img s =
             Some \<lparr> rs = (rs s)\<lparr> errors := el' \<rparr>,
                    dst = dst_Set img (dst s) (fst (img_dp img) + op_x (rs s))
                            (snd (img_dp img) + op_y (rs s)) nc,
                    calls = calls s @
                      [\<lparr> ev_x = op_x (rs s), ev_y = op_y (rs s),
                         ev_acc = acc_formula fl (rs s) 4, ev_proposed = nc,
                         ev_error = Vals (color_diff fl
                           (src_At img (fst (img_sp img) + op_x (rs s))
                              (snd (img_sp img) + op_y (rs s))) e) \<rparr>] \<rparr>"
    by blast
  have "entry_ok 4 (Vals (color_diff fl
          (src_At img (fst (img_sp img) + op_x (rs s)) (snd (img_sp img) + op_y (rs s))) e))"
    by (simp add: entry_ok_def length_color_diff)
  from Rotate_engine_ok [OF assms(1) this r] have ok: "engine_ok q ((rs s)\<lparr> errors := el' \<rparr>)" .
  show ?thesis
    using True d ok by (simp add: move_def visited_def cursor_def set_cursor_def engine_ok_def)
qed


subsection \<open>Sequences of moves\<close>

lemma moves_Nil_fun: "moves fl img [] = Some"
  by (rule ext) simp

lemma moves_Cons_fun: "moves fl img (d # ds) = (\<lambda>s. move fl img d s \<bind> moves fl img ds)"
  by (rule ext) simp

lemma moves_append: "moves fl img (a @ b) s = moves fl img a s \<bind> moves fl img b"
proof (induction a arbitrary: s)
  case Nil
  then show ?case by simp
next
  case (Cons d a)
  then show ?case by (cases "move fl img d s") simp_all
qed

lemma moves_append_fun: "moves fl img (a @ b) = (\<lambda>s. moves fl img a s \<bind> moves fl img b)"
  by (rule ext) (rule moves_append)

lemma hilbertLevel_one:
  "hilbertLevel fl img 1 dir s = moves fl img (hpath (Suc 0) dir) s"
  by (subst hilbertLevel.simps) (cases dir; simp add: moves_Cons_fun moves_Nil_fun)

lemma hilbertLevel_dirNONE: "hilbertLevel fl img level dirNONE s = Some s"
  by (subst hilbertLevel.simps) simp

lemma hilbertLevel_step:
  assumes "\<And>d t. hilbertLevel fl img (int (Suc n)) d t = moves fl img (hpath (Suc n) d) t"
  shows "hilbertLevel fl img (int (Suc (Suc n))) dir s = moves fl img (hpath (Suc (Suc n)) dir) s"
proof -
  have l: "int (Suc (Suc n)) \<noteq> 1" "\<not> int (Suc (Suc n)) < 1"
    "int (Suc (Suc n)) - 1 = int (Suc n)" by simp_all
  have f: "\<And>d. hilbertLevel fl img (int (Suc n)) d = moves fl img (hpath (Suc n) d)"
    using assms by (intro ext)
  note rw = l simp_thms if_False f hilbertDirection.case hpath.simps(2-6) [of "Suc n"]
    moves_append_fun moves_Cons_fun moves_Nil_fun Option.bind_assoc Option.bind_runit
    moves.simps
  show ?thesis
  proof (cases dir)
    case dirNONE
    show ?thesis unfolding dirNONE by (subst hilbertLevel.simps) (simp only: rw)
  next
    case dirUP
    show ?thesis unfolding dirUP by (subst hilbertLevel.simps) (simp only: rw)
  next
    case dirLEFT
    show ?thesis unfolding dirLEFT by (subst hilbertLevel.simps) (simp only: rw)
  next
    case dirDOWN
    show ?thesis unfolding dirDOWN by (subst hilbertLevel.simps) (simp only: rw)
  next
    case dirRIGHT
    show ?thesis unfolding dirRIGHT by (subst hilbertLevel.simps) (simp only: rw)
  qed
qed

lemma hilbertLevel_moves:
  "hilbertLevel fl img (int (Suc n)) dir s = moves fl img (hpath (Suc n) dir) s"
proof (induction n arbitrary: dir s)
  case 0
  then show ?case using hilbertLevel_one [of fl img dir s] by simp
next
  case (Suc n)
  show ?case by (rule hilbertLevel_step) (rule Suc)
qed


lemma moves_ok:
  assumes "engine_ok q (rs s)" and "numChannels img = 4"
  shows "\<exists>s'. moves fl img ds s = Some s' \<and> engine_ok q (rs s') \<and>
           cursor s' = endpos (cursor s) ds \<and>
           visited s' = visited s @ filter (in_bounds img) (cells (cursor s) ds) \<and>
           Ratio (rs s') = Ratio (rs s) \<and> Weights (rs s') = Weights (rs s)"
  using assms(1)
proof (induction ds arbitrary: s)
  case Nil
  then show ?case by simp
next
  case (Cons d ds)
  from move_ok [OF Cons.prems assms(2), of fl d] obtain s1 where
    m: "move fl img d s = Some s1" "engine_ok q (rs s1)" "cursor s1 = step d (cursor s)"
       "visited s1 = visited s @ (if in_bounds img (cursor s) then [cursor s] else [])"
       "Ratio (rs s1) = Ratio (rs s)" "Weights (rs s1) = Weights (rs s)" by blast
  from Cons.IH [OF m(2)] obtain s2 where
    n: "moves fl img ds s1 = Some s2" "engine_ok q (rs s2)" "cursor s2 = endpos (cursor s1) ds"
       "visited s2 = visited s1 @ filter (in_bounds img) (cells (cursor s1) ds)"
       "Ratio (rs s2) = Ratio (rs s1)" "Weights (rs s2) = Weights (rs s1)" by blast
  show ?case using m n by simp
qed

lemma set_cursor_twice [simp]: "set_cursor p (set_cursor p' s) = set_cursor p s"
  by (simp add: set_cursor_def)

lemma moves_nowhere_in_bounds:
  assumes "\<And>p. \<not> in_bounds img p"
  shows "moves fl img (d # ds) s = Some (set_cursor (endpos (cursor s) (d # ds)) s)"
proof (induction ds arbitrary: d s)
  case Nil
  then show ?case by (simp add: move_out_of_bounds assms)
next
  case (Cons e ds)
  show ?case using Cons [of e "set_cursor (step d (cursor s)) s"]
    by (simp add: move_out_of_bounds assms)
qed


subsection \<open>The geometry of the curve\<close>

lemma cells_append: "cells p (a @ b) = cells p a @ cells (endpos p a) b"
  by (induction a arbitrary: p) simp_all

lemma endpos_append: "endpos p (a @ b) = endpos (endpos p a) b"
  by (induction a arbitrary: p) simp_all

lemma cells_snoc: "cells p (a @ [d]) = cells p a @ [endpos p a]"
  by (simp add: cells_append)

lemma trail_step: "trail p (A @ d # B) = trail p A @ trail (step d (endpos p A)) B"
  by (simp add: trail_def cells_append endpos_append)

lemma endpos_step: "endpos p (A @ d # B) = endpos (step d (endpos p A)) B"
  by (simp add: endpos_append)

lemma covers4:
  assumes "covers p1 S1" and "covers p2 S2" and "covers p3 S3" and "covers p4 S4"
    and "S1 \<inter> S2 = {}" and "S1 \<inter> S3 = {}" and "S1 \<inter> S4 = {}"
    and "S2 \<inter> S3 = {}" and "S2 \<inter> S4 = {}" and "S3 \<inter> S4 = {}"
    and "S1 \<union> S2 \<union> S3 \<union> S4 = S"
  shows "covers (p1 @ p2 @ p3 @ p4) S"
  using assms unfolding covers_def by auto

lemma quadrants:
  assumes "0 < n"
  shows "box a b n \<inter> box a (b + n) n = {}" and "box a b n \<inter> box (a + n) (b + n) n = {}"
    and "box a b n \<inter> box (a + n) b n = {}" and "box a (b + n) n \<inter> box (a + n) (b + n) n = {}"
    and "box a (b + n) n \<inter> box (a + n) b n = {}" and "box (a + n) (b + n) n \<inter> box (a + n) b n = {}"
    and "box a b n \<union> box a (b + n) n \<union> box (a + n) (b + n) n \<union> box (a + n) b n = box a b (2 * n)"
  using assms by (auto simp: box_def)


text \<open>
  The curve of order \<open>n\<close> enumerates a square of side \<open>2 ^ n\<close> without repetition. For
  the orientations UP and LEFT it starts at the corner of least coordinates of the
  square, for RIGHT and DOWN at the opposite corner.
\<close>

lemma hilbert_geometry:
  "(\<forall>a b. covers (trail (a, b) (hpath n dirUP)) (box a b (2 ^ n)) \<and>
      endpos (a, b) (hpath n dirUP) = (a + 2 ^ n - 1, b)) \<and>
   (\<forall>a b. covers (trail (a, b) (hpath n dirLEFT)) (box a b (2 ^ n)) \<and>
      endpos (a, b) (hpath n dirLEFT) = (a, b + 2 ^ n - 1)) \<and>
   (\<forall>a b. covers (trail (a, b) (hpath n dirRIGHT)) (box (a - 2 ^ n + 1) (b - 2 ^ n + 1) (2 ^ n)) \<and>
      endpos (a, b) (hpath n dirRIGHT) = (a, b - 2 ^ n + 1)) \<and>
   (\<forall>a b. covers (trail (a, b) (hpath n dirDOWN)) (box (a - 2 ^ n + 1) (b - 2 ^ n + 1) (2 ^ n)) \<and>
      endpos (a, b) (hpath n dirDOWN) = (a - 2 ^ n + 1, b))"
proof (induction n)
  case 0
  show ?case by (auto simp: covers_def trail_def box_def)
next
  case (Suc n)
  define N :: int where "N = 2 ^ n"
  have N: "0 < N" by (simp add: N_def)
  note ih = Suc.IH [folded N_def]
  have iU: "covers (trail (a, b) (hpath n dirUP)) (box a b N) \<and>
      endpos (a, b) (hpath n dirUP) = (a + N - 1, b)" for a b
    using ih by simp
  have iL: "covers (trail (a, b) (hpath n dirLEFT)) (box a b N) \<and>
      endpos (a, b) (hpath n dirLEFT) = (a, b + N - 1)" for a b
    using ih by simp
  have iR: "covers (trail (a, b) (hpath n dirRIGHT)) (box (a - N + 1) (b - N + 1) N) \<and>
      endpos (a, b) (hpath n dirRIGHT) = (a, b - N + 1)" for a b
    using ih by simp
  have iD: "covers (trail (a, b) (hpath n dirDOWN)) (box (a - N + 1) (b - N + 1) N) \<and>
      endpos (a, b) (hpath n dirDOWN) = (a - N + 1, b)" for a b
    using ih by simp
  have rU: "covers (trail (a, b) (hpath (Suc n) dirUP)) (box a b (2 * N)) \<and>
      endpos (a, b) (hpath (Suc n) dirUP) = (a + 2 * N - 1, b)" for a b
  proof -
    have e1: "endpos (a, b) (hpath n dirLEFT) = (a, b + N - 1)"
      using iL [of "a" "b"] by simp
    have c1: "covers (trail (a, b) (hpath n dirLEFT)) (box a b N)"
      by (rule iL [of "a" "b", THEN conjunct1])
    have s1: "step dirDOWN (a, b + N - 1) = (a, b + N)" by simp
    have e2: "endpos (a, b + N) (hpath n dirUP) = (a + N - 1, b + N)"
      using iU [of "a" "b + N"] by simp
    have c2: "covers (trail (a, b + N) (hpath n dirUP)) (box a (b + N) N)"
      by (rule iU [of "a" "b + N", THEN conjunct1])
    have s2: "step dirRIGHT (a + N - 1, b + N) = (a + N, b + N)" by simp
    have e3: "endpos (a + N, b + N) (hpath n dirUP) = (a + 2 * N - 1, b + N)"
      using iU [of "a + N" "b + N"] by simp
    have c3: "covers (trail (a + N, b + N) (hpath n dirUP)) (box (a + N) (b + N) N)"
      by (rule iU [of "a + N" "b + N", THEN conjunct1])
    have s3: "step dirUP (a + 2 * N - 1, b + N) = (a + 2 * N - 1, b + N - 1)" by simp
    have e4: "endpos (a + 2 * N - 1, b + N - 1) (hpath n dirRIGHT) = (a + 2 * N - 1, b)"
      using iR [of "a + 2 * N - 1" "b + N - 1"] by simp
    have c4: "covers (trail (a + 2 * N - 1, b + N - 1) (hpath n dirRIGHT)) (box (a + N) b N)"
    proof -
      have bx: "box (a + 2 * N - 1 - N + 1) (b + N - 1 - N + 1) N = box (a + N) b N"
        by (rule arg_cong2 [where f = "\<lambda>u v. box u v N"]) simp_all
      show ?thesis using iR [of "a + 2 * N - 1" "b + N - 1", THEN conjunct1] unfolding bx .
    qed
    have t: "trail (a, b) (hpath (Suc n) dirUP) =
        trail (a, b) (hpath n dirLEFT)
          @ trail (a, b + N) (hpath n dirUP)
          @ trail (a + N, b + N) (hpath n dirUP)
          @ trail (a + 2 * N - 1, b + N - 1) (hpath n dirRIGHT)"
      by (simp only: hpath.simps append_Cons append_Nil trail_step e1 s1 e2 s2 e3 s3)
    have e: "endpos (a, b) (hpath (Suc n) dirUP) = (a + 2 * N - 1, b)"
      by (simp only: hpath.simps append_Cons append_Nil endpos_step e1 s1 e2 s2 e3 s3 e4)
    have "covers (trail (a, b) (hpath (Suc n) dirUP)) (box a b (2 * N))"
      unfolding t
      by (rule covers4 [OF c1 c2 c3 c4])
        (use quadrants [OF N, of "a" "b"] in blast)+
    then show ?thesis using e by simp
  qed
  have rL: "covers (trail (a, b) (hpath (Suc n) dirLEFT)) (box a b (2 * N)) \<and>
      endpos (a, b) (hpath (Suc n) dirLEFT) = (a, b + 2 * N - 1)" for a b
  proof -
    have e1: "endpos (a, b) (hpath n dirUP) = (a + N - 1, b)"
      using iU [of "a" "b"] by simp
    have c1: "covers (trail (a, b) (hpath n dirUP)) (box a b N)"
      by (rule iU [of "a" "b", THEN conjunct1])
    have s1: "step dirRIGHT (a + N - 1, b) = (a + N, b)" by simp
    have e2: "endpos (a + N, b) (hpath n dirLEFT) = (a + N, b + N - 1)"
      using iL [of "a + N" "b"] by simp
    have c2: "covers (trail (a + N, b) (hpath n dirLEFT)) (box (a + N) b N)"
      by (rule iL [of "a + N" "b", THEN conjunct1])
    have s2: "step dirDOWN (a + N, b + N - 1) = (a + N, b + N)" by simp
    have e3: "endpos (a + N, b + N) (hpath n dirLEFT) = (a + N, b + 2 * N - 1)"
      using iL [of "a + N" "b + N"] by simp
    have c3: "covers (trail (a + N, b + N) (hpath n dirLEFT)) (box (a + N) (b + N) N)"
      by (rule iL [of "a + N" "b + N", THEN conjunct1])
    have s3: "step dirLEFT (a + N, b + 2 * N - 1) = (a + N - 1, b + 2 * N - 1)" by simp
    have e4: "endpos (a + N - 1, b + 2 * N - 1) (hpath n dirDOWN) = (a, b + 2 * N - 1)"
      using iD [of "a + N - 1" "b + 2 * N - 1"] by simp
    have c4: "covers (trail (a + N - 1, b + 2 * N - 1) (hpath n dirDOWN)) (box a (b + N) N)"
    proof -
      have bx: "box (a + N - 1 - N + 1) (b + 2 * N - 1 - N + 1) N = box a (b + N) N"
        by (rule arg_cong2 [where f = "\<lambda>u v. box u v N"]) simp_all
      show ?thesis using iD [of "a + N - 1" "b + 2 * N - 1", THEN conjunct1] unfolding bx .
    qed
    have t: "trail (a, b) (hpath (Suc n) dirLEFT) =
        trail (a, b) (hpath n dirUP)
          @ trail (a + N, b) (hpath n dirLEFT)
          @ trail (a + N, b + N) (hpath n dirLEFT)
          @ trail (a + N - 1, b + 2 * N - 1) (hpath n dirDOWN)"
      by (simp only: hpath.simps append_Cons append_Nil trail_step e1 s1 e2 s2 e3 s3)
    have e: "endpos (a, b) (hpath (Suc n) dirLEFT) = (a, b + 2 * N - 1)"
      by (simp only: hpath.simps append_Cons append_Nil endpos_step e1 s1 e2 s2 e3 s3 e4)
    have "covers (trail (a, b) (hpath (Suc n) dirLEFT)) (box a b (2 * N))"
      unfolding t
      by (rule covers4 [OF c1 c2 c3 c4])
        (use quadrants [OF N, of "a" "b"] in blast)+
    then show ?thesis using e by simp
  qed
  have rR: "covers (trail (a, b) (hpath (Suc n) dirRIGHT)) (box (a - 2 * N + 1) (b - 2 * N + 1) (2 * N)) \<and>
      endpos (a, b) (hpath (Suc n) dirRIGHT) = (a, b - 2 * N + 1)" for a b
  proof -
    have e1: "endpos (a, b) (hpath n dirDOWN) = (a - N + 1, b)"
      using iD [of "a" "b"] by simp
    have c1: "covers (trail (a, b) (hpath n dirDOWN)) (box (a - 2 * N + 1 + N) (b - 2 * N + 1 + N) N)"
    proof -
      have bx: "box (a - N + 1) (b - N + 1) N = box (a - 2 * N + 1 + N) (b - 2 * N + 1 + N) N"
        by (rule arg_cong2 [where f = "\<lambda>u v. box u v N"]) simp_all
      show ?thesis using iD [of "a" "b", THEN conjunct1] unfolding bx .
    qed
    have s1: "step dirLEFT (a - N + 1, b) = (a - N, b)" by simp
    have e2: "endpos (a - N, b) (hpath n dirRIGHT) = (a - N, b - N + 1)"
      using iR [of "a - N" "b"] by simp
    have c2: "covers (trail (a - N, b) (hpath n dirRIGHT)) (box (a - 2 * N + 1) (b - 2 * N + 1 + N) N)"
    proof -
      have bx: "box (a - N - N + 1) (b - N + 1) N = box (a - 2 * N + 1) (b - 2 * N + 1 + N) N"
        by (rule arg_cong2 [where f = "\<lambda>u v. box u v N"]) simp_all
      show ?thesis using iR [of "a - N" "b", THEN conjunct1] unfolding bx .
    qed
    have s2: "step dirUP (a - N, b - N + 1) = (a - N, b - N)" by simp
    have e3: "endpos (a - N, b - N) (hpath n dirRIGHT) = (a - N, b - 2 * N + 1)"
      using iR [of "a - N" "b - N"] by simp
    have c3: "covers (trail (a - N, b - N) (hpath n dirRIGHT)) (box (a - 2 * N + 1) (b - 2 * N + 1) N)"
    proof -
      have bx: "box (a - N - N + 1) (b - N - N + 1) N = box (a - 2 * N + 1) (b - 2 * N + 1) N"
        by (rule arg_cong2 [where f = "\<lambda>u v. box u v N"]) simp_all
      show ?thesis using iR [of "a - N" "b - N", THEN conjunct1] unfolding bx .
    qed
    have s3: "step dirRIGHT (a - N, b - 2 * N + 1) = (a - N + 1, b - 2 * N + 1)" by simp
    have e4: "endpos (a - N + 1, b - 2 * N + 1) (hpath n dirUP) = (a, b - 2 * N + 1)"
      using iU [of "a - N + 1" "b - 2 * N + 1"] by simp
    have c4: "covers (trail (a - N + 1, b - 2 * N + 1) (hpath n dirUP)) (box (a - 2 * N + 1 + N) (b - 2 * N + 1) N)"
    proof -
      have bx: "box (a - N + 1) (b - 2 * N + 1) N = box (a - 2 * N + 1 + N) (b - 2 * N + 1) N"
        by (rule arg_cong2 [where f = "\<lambda>u v. box u v N"]) simp_all
      show ?thesis using iU [of "a - N + 1" "b - 2 * N + 1", THEN conjunct1] unfolding bx .
    qed
    have t: "trail (a, b) (hpath (Suc n) dirRIGHT) =
        trail (a, b) (hpath n dirDOWN)
          @ trail (a - N, b) (hpath n dirRIGHT)
          @ trail (a - N, b - N) (hpath n dirRIGHT)
          @ trail (a - N + 1, b - 2 * N + 1) (hpath n dirUP)"
      by (simp only: hpath.simps append_Cons append_Nil trail_step e1 s1 e2 s2 e3 s3)
    have e: "endpos (a, b) (hpath (Suc n) dirRIGHT) = (a, b - 2 * N + 1)"
      by (simp only: hpath.simps append_Cons append_Nil endpos_step e1 s1 e2 s2 e3 s3 e4)
    have "covers (trail (a, b) (hpath (Suc n) dirRIGHT)) (box (a - 2 * N + 1) (b - 2 * N + 1) (2 * N))"
      unfolding t
      by (rule covers4 [OF c1 c2 c3 c4])
        (use quadrants [OF N, of "a - 2 * N + 1" "b - 2 * N + 1"] in blast)+
    then show ?thesis using e by simp
  qed
  have rD: "covers (trail (a, b) (hpath (Suc n) dirDOWN)) (box (a - 2 * N + 1) (b - 2 * N + 1) (2 * N)) \<and>
      endpos (a, b) (hpath (Suc n) dirDOWN) = (a - 2 * N + 1, b)" for a b
  proof -
    have e1: "endpos (a, b) (hpath n dirRIGHT) = (a, b - N + 1)"
      using iR [of "a" "b"] by simp
    have c1: "covers (trail (a, b) (hpath n dirRIGHT)) (box (a - 2 * N + 1 + N) (b - 2 * N + 1 + N) N)"
    proof -
      have bx: "box (a - N + 1) (b - N + 1) N = box (a - 2 * N + 1 + N) (b - 2 * N + 1 + N) N"
        by (rule arg_cong2 [where f = "\<lambda>u v. box u v N"]) simp_all
      show ?thesis using iR [of "a" "b", THEN conjunct1] unfolding bx .
    qed
    have s1: "step dirUP (a, b - N + 1) = (a, b - N)" by simp
    have e2: "endpos (a, b - N) (hpath n dirDOWN) = (a - N + 1, b - N)"
      using iD [of "a" "b - N"] by simp
    have c2: "covers (trail (a, b - N) (hpath n dirDOWN)) (box (a - 2 * N + 1 + N) (b - 2 * N + 1) N)"
    proof -
      have bx: "box (a - N + 1) (b - N - N + 1) N = box (a - 2 * N + 1 + N) (b - 2 * N + 1) N"
        by (rule arg_cong2 [where f = "\<lambda>u v. box u v N"]) simp_all
      show ?thesis using iD [of "a" "b - N", THEN conjunct1] unfolding bx .
    qed
    have s2: "step dirLEFT (a - N + 1, b - N) = (a - N, b - N)" by simp
    have e3: "endpos (a - N, b - N) (hpath n dirDOWN) = (a - 2 * N + 1, b - N)"
      using iD [of "a - N" "b - N"] by simp
    have c3: "covers (trail (a - N, b - N) (hpath n dirDOWN)) (box (a - 2 * N + 1) (b - 2 * N + 1) N)"
    proof -
      have bx: "box (a - N - N + 1) (b - N - N + 1) N = box (a - 2 * N + 1) (b - 2 * N + 1) N"
        by (rule arg_cong2 [where f = "\<lambda>u v. box u v N"]) simp_all
      show ?thesis using iD [of "a - N" "b - N", THEN conjunct1] unfolding bx .
    qed
    have s3: "step dirDOWN (a - 2 * N + 1, b - N) = (a - 2 * N + 1, b - N + 1)" by simp
    have e4: "endpos (a - 2 * N + 1, b - N + 1) (hpath n dirLEFT) = (a - 2 * N + 1, b)"
      using iL [of "a - 2 * N + 1" "b - N + 1"] by simp
    have c4: "covers (trail (a - 2 * N + 1, b - N + 1) (hpath n dirLEFT)) (box (a - 2 * N + 1) (b - 2 * N + 1 + N) N)"
    proof -
      have bx: "box (a - 2 * N + 1) (b - N + 1) N = box (a - 2 * N + 1) (b - 2 * N + 1 + N) N"
        by (rule arg_cong2 [where f = "\<lambda>u v. box u v N"]) simp_all
      show ?thesis using iL [of "a - 2 * N + 1" "b - N + 1", THEN conjunct1] unfolding bx .
    qed
    have t: "trail (a, b) (hpath (Suc n) dirDOWN) =
        trail (a, b) (hpath n dirRIGHT)
          @ trail (a, b - N) (hpath n dirDOWN)
          @ trail (a - N, b - N) (hpath n dirDOWN)
          @ trail (a - 2 * N + 1, b - N + 1) (hpath n dirLEFT)"
      by (simp only: hpath.simps append_Cons append_Nil trail_step e1 s1 e2 s2 e3 s3)
    have e: "endpos (a, b) (hpath (Suc n) dirDOWN) = (a - 2 * N + 1, b)"
      by (simp only: hpath.simps append_Cons append_Nil endpos_step e1 s1 e2 s2 e3 s3 e4)
    have "covers (trail (a, b) (hpath (Suc n) dirDOWN)) (box (a - 2 * N + 1) (b - 2 * N + 1) (2 * N))"
      unfolding t
      by (rule covers4 [OF c1 c2 c3 c4])
        (use quadrants [OF N, of "a - 2 * N + 1" "b - 2 * N + 1"] in blast)+
    then show ?thesis using e by simp
  qed

  have P: "(2::int) ^ Suc n = 2 * N" by (simp add: N_def)
  show ?case unfolding P using rU rL rR rD by simp
qed


subsection \<open>Dither as a sequence of moves\<close>

lemma log2_loop_ge: "r \<le> log2_loop v r"
proof (induction v r rule: log2_loop.induct)
  case (1 v r)
  show ?case
  proof (cases "v > 1")
    case True
    with 1 show ?thesis by (subst log2_loop.simps) simp
  next
    case False
    then show ?thesis by (subst log2_loop.simps) simp
  qed
qed

lemma log2_loop_power: "log2_loop (2 ^ n) r = r + int n"
proof (induction n arbitrary: r)
  case 0
  show ?case by (subst log2_loop.simps) simp
next
  case (Suc n)
  have "(0::int) < 2 ^ n" by simp
  then have "(1::int) < 2 * 2 ^ n" by linarith
  then have "(1::int) < 2 ^ Suc n" by simp
  then show ?case using Suc [of "r + 1"] by (subst log2_loop.simps) simp
qed

lemma dither_level_nonneg: "0 \<le> dither_level img"
  using log2_loop_ge [of 0 "max (fst (img_size img)) (snd (img_size img))"]
  by (simp add: dither_level_def log2_def Let_def)

lemma dither_level_square: "img_size img = (2 ^ n, 2 ^ n) \<Longrightarrow> dither_level img = int n"
  by (simp add: dither_level_def log2_def log2_loop_power Let_def)

lemma Dither_moves:
  "Dither fl img s = moves fl img (hpath (nat (dither_level img)) dirUP @ [dirNONE]) s"
proof (cases "dither_level img > 0")
  case True
  define n where "n = nat (dither_level img) - 1"
  have n: "dither_level img = int (Suc n)" using True by (simp add: n_def)
  have h: "hilbertLevel fl img (dither_level img) dirUP s
             = moves fl img (hpath (nat (dither_level img)) dirUP) s"
    unfolding n nat_int by (rule hilbertLevel_moves)
  have m: "moves fl img (ds @ [dirNONE]) s = moves fl img ds s \<bind> move fl img dirNONE" for ds
    by (simp add: moves_append moves_Cons_fun moves_Nil_fun)
  have "Dither fl img s = hilbertLevel fl img (dither_level img) dirUP s \<bind> move fl img dirNONE"
    using True by (simp add: Dither_def dither_level_def Let_def)
  then show ?thesis by (simp only: h m)
next
  case False
  then have z: "dither_level img = 0" using dither_level_nonneg [of img] by simp
  have "Dither fl img s = move fl img dirNONE s"
    using z by (simp add: Dither_def dither_level_def Let_def)
  then show ?thesis using z by (simp add: moves_Nil_fun)
qed

lemma trail_snoc_NONE: "cells p (ds @ [dirNONE]) = trail p ds"
  by (simp add: cells_snoc trail_def)

lemma endpos_snoc_NONE: "endpos p (ds @ [dirNONE]) = endpos p ds"
  by (cases "endpos p ds") (simp add: endpos_append)

lemma Dither_ok:
  assumes "engine_ok q (rs s)" and "numChannels img = 4"
  shows "\<exists>s'. Dither fl img s = Some s' \<and> engine_ok q (rs s') \<and>
           visited s' = visited s @
             filter (in_bounds img) (trail (cursor s) (hpath (nat (dither_level img)) dirUP)) \<and>
           cursor s' = endpos (cursor s) (hpath (nat (dither_level img)) dirUP)"
  using moves_ok [OF assms, of fl "hpath (nat (dither_level img)) dirUP @ [dirNONE]"]
  by (auto simp: Dither_moves trail_snoc_NONE endpos_snoc_NONE)

lemma hd_trail: "hd (trail p ds) = p"
  by (cases ds) (simp_all add: trail_def)

lemma box_in_bounds:
  "img_size img = (w, w) \<Longrightarrow> p \<in> box 0 0 w \<longleftrightarrow> in_bounds img p"
  by (cases p) (auto simp: box_def in_bounds_def)


subsection \<open>Concrete inputs\<close>

lemma gray_image_simps [simp]:
  "img_size (gray_image w h) = (w, h)" "numChannels (gray_image w h) = 4"
  by (simp_all add: gray_image_def NewImage_def)

lemma fresh_engine_ok: "engine_ok 2 fresh_engine"
  by (simp add: engine_ok_def fresh_engine_def ring_ok_def entry_ok_def)

lemma start_simps [simp]:
  "rs (start opr d) = opr" "dst (start opr d) = d" "calls (start opr d) = []"
  "visited (start opr d) = []" "cursor (start opr d) = (op_x opr, op_y opr)"
  by (simp_all add: start_def visited_def cursor_def)

lemma NewOperation_fresh: "NewOperation exact_ops 2 2 = Some fresh_engine"
  apply (simp add: NewOperation_def initWeights_def newErrorList_def fresh_engine_def exact_ops_def Let_def)
  apply (subst initWeights_loop.simps, simp)
  apply (subst initWeights_loop.simps, simp)
  apply (subst initWeights_loop.simps, simp add: round_half_away_def numeral_2_eq_2)
  done

lemma exact_ops_simps [simp]:
  "f_of_int exact_ops = of_int" "f_mul exact_ops = (*)" "f_div exact_ops = (/)"
  "f_sub exact_ops = (-)" "f_muladd exact_ops = (\<lambda>a b c. a + b * c)"
  "f_round exact_ops = round_half_away" "f_to_int32 exact_ops = trunc_int32"
  "f_le exact_ops = (\<le>)" "f_exp exact_ops = exp" "f_log exact_ops = ln"
  by (simp_all add: exact_ops_def)


subsection \<open>The traversal\<close>

text \<open>
  Claim C1. On a square image of side \<open>2 ^ level\<close>, \<open>level \<ge> 1\<close>, \<^verbatim>\<open>Dither\<close> is
  \<^verbatim>\<open>hilbertLevel(level, dirUP)\<close> followed by the final \<^verbatim>\<open>move(dirNONE)\<close>; started at the
  cursor \<open>(0, 0)\<close> it returns, and the pixels it dithers, which are the positions of
  the cursor along the moves of the curve, are every coordinate of
  \<open>[0, 2 ^ level) \<times> [0, 2 ^ level)\<close>, each exactly once, the first being \<open>(0, 0)\<close>.
\<close>

theorem C1_hilbert_visits_each_pixel_once:
  assumes "1 \<le> level" and "img_size img = (2 ^ level, 2 ^ level)" and "numChannels img = 4"
    and "engine_ok q (rs s)" and "cursor s = (0, 0)" and "calls s = []"
  shows "\<exists>s'. Dither fl img s = Some s' \<and>
           hilbertLevel fl img (int level) dirUP s \<bind> move fl img dirNONE = Some s' \<and>
           visited s' = trail (0, 0) (hpath level dirUP) \<and> distinct (visited s') \<and>
           set (visited s') = {0..<2 ^ level} \<times> {0..<2 ^ level} \<and>
           length (visited s') = 4 ^ level \<and> hd (visited s') = (0, 0)"
proof -
  have lv: "dither_level img = int level" using assms(2) by (rule dither_level_square)
  have d: "Dither fl img s = hilbertLevel fl img (int level) dirUP s \<bind> move fl img dirNONE"
    using assms(1) lv by (simp add: Dither_def dither_level_def Let_def)
  let ?t = "trail (0, 0) (hpath level dirUP)"
  from Dither_ok [OF assms(4,3), of fl] obtain s' where
    s': "Dither fl img s = Some s'"
        "visited s' = visited s @ filter (in_bounds img) (trail (cursor s) (hpath (nat (dither_level img)) dirUP))"
    by blast
  have c: "covers ?t (box 0 0 (2 ^ level))"
    using hilbert_geometry [of level] by blast
  have "\<forall>p \<in> set ?t. in_bounds img p"
    using c box_in_bounds [OF assms(2)] by (simp add: covers_def)
  then have f: "filter (in_bounds img) ?t = ?t" by (simp add: filter_id_conv)
  have v: "visited s' = ?t"
    using s'(2) f lv assms(5,6) by (simp add: visited_def)
  have b: "box 0 0 (2 ^ level) = {0..<2 ^ level} \<times> {0..<2 ^ level}"
    by (auto simp: box_def)
  have dist: "distinct ?t" and st: "set ?t = {0..<2 ^ level} \<times> {0..<2 ^ level}"
    using c b by (simp_all add: covers_def)
  have "length ?t = card (set ?t)" using dist by (simp add: distinct_card)
  also have "\<dots> = card ({0..<2 ^ level :: int} \<times> {0..<2 ^ level :: int})" by (simp only: st)
  also have "\<dots> = 4 ^ level"
    by (simp add: card_cartesian_product nat_power_eq power_mult_distrib [symmetric])
  finally have len: "length ?t = 4 ^ level" .
  have d': "hilbertLevel fl img (int level) dirUP s \<bind> move fl img dirNONE = Some s'"
    using d s'(1) by simp
  show ?thesis
    using s'(1) d' dist st len unfolding v [symmetric]
    by (intro exI [of _ s'] conjI) (simp_all add: v hd_trail)
qed

text \<open>The engine \<^verbatim>\<open>NewOperation(2, 2.0)\<close> on a gray image of 4 by 4 pixels.\<close>

theorem C1_witness:
  "\<exists>s'. Dither exact_ops (gray_image 4 4) (start fresh_engine blank) = Some s' \<and>
     hilbertLevel exact_ops (gray_image 4 4) 2 dirUP (start fresh_engine blank)
       \<bind> move exact_ops (gray_image 4 4) dirNONE = Some s' \<and>
     visited s' = trail (0, 0) (hpath 2 dirUP) \<and>
     distinct (visited s') \<and> set (visited s') = {0..<4} \<times> {0..<4} \<and>
     length (visited s') = 16 \<and> hd (visited s') = (0, 0)"
  using C1_hilbert_visits_each_pixel_once [of 2 "gray_image 4 4" 2 "start fresh_engine blank" exact_ops]
    fresh_engine_ok
  by (simp add: fresh_engine_def)

text \<open>
  Claim C5. On an image of 2 by 2 pixels \<^verbatim>\<open>Dither\<close> runs \<^verbatim>\<open>hilbertLevel(1, dirUP)\<close>,
  which dithers \<open>(0,0)\<close>, \<open>(0,1)\<close>, \<open>(1,1)\<close> and leaves the cursor on \<open>(1,0)\<close>; the final
  \<^verbatim>\<open>move(dirNONE)\<close> dithers \<open>(1,0)\<close>. Four pixels are dithered, in this order.
\<close>

theorem C5_two_by_two_order:
  assumes "img_size img = (2, 2)" and "numChannels img = 4"
    and "engine_ok q (rs s)" and "cursor s = (0, 0)" and "calls s = []"
  shows "\<exists>s1 s'. hilbertLevel fl img 1 dirUP s = Some s1 \<and>
           visited s1 = [(0, 0), (0, 1), (1, 1)] \<and> cursor s1 = (1, 0) \<and>
           move fl img dirNONE s1 = Some s' \<and> Dither fl img s = Some s' \<and>
           visited s' = [(0, 0), (0, 1), (1, 1), (1, 0)]"
proof -
  have sz: "img_size img = (2 ^ 1, 2 ^ 1)" using assms(1) by simp
  have lv: "dither_level img = 1" using dither_level_square [OF sz] by simp
  have d: "Dither fl img s = hilbertLevel fl img 1 dirUP s \<bind> move fl img dirNONE"
    using lv by (simp add: Dither_def dither_level_def Let_def)
  have h: "hilbertLevel fl img 1 dirUP s = moves fl img [dirDOWN, dirRIGHT, dirUP] s"
    by (simp add: hilbertLevel_one)
  have ib: "in_bounds img (0, 0)" "in_bounds img (0, 1)" "in_bounds img (1, 1)"
    "in_bounds img (1, 0)"
    using assms(1) by (simp_all add: in_bounds_def)
  from moves_ok [OF assms(3,2), of fl "[dirDOWN, dirRIGHT, dirUP]"] obtain s1 where
    s1: "moves fl img [dirDOWN, dirRIGHT, dirUP] s = Some s1" "engine_ok q (rs s1)"
        "cursor s1 = (1, 0)" "visited s1 = [(0, 0), (0, 1), (1, 1)]"
    using assms(4,5) ib by (auto simp: visited_def)
  from move_ok [OF s1(2) assms(2), of fl dirNONE] obtain s' where
    s': "move fl img dirNONE s1 = Some s'" "visited s' = [(0, 0), (0, 1), (1, 1), (1, 0)]"
    using s1(3,4) ib by auto
  have hs: "hilbertLevel fl img 1 dirUP s = Some s1" using h s1(1) by (simp only:)
  have D: "Dither fl img s = Some s'" unfolding d hs using s'(1) by simp
  show ?thesis
    using hs s1(3,4) s' D by (intro exI [of _ s1] exI [of _ s'] conjI)
qed

theorem C5_witness:
  "\<exists>s1 s'. hilbertLevel exact_ops (gray_image 2 2) 1 dirUP (start fresh_engine blank) = Some s1 \<and>
     visited s1 = [(0, 0), (0, 1), (1, 1)] \<and> cursor s1 = (1, 0) \<and>
     move exact_ops (gray_image 2 2) dirNONE s1 = Some s' \<and>
     Dither exact_ops (gray_image 2 2) (start fresh_engine blank) = Some s' \<and>
     visited s' = [(0, 0), (0, 1), (1, 1), (1, 0)]"
  using C5_two_by_two_order [of "gray_image 2 2" 2 "start fresh_engine blank" exact_ops]
    fresh_engine_ok
  by (simp add: fresh_engine_def)


subsection \<open>Construction\<close>

lemma initWeights_loop_ok:
  assumes "length weights = nat sz" and "i \<le> nat sz"
  shows "\<exists>ws. initWeights_loop fl sz m i v weights = Some ws \<and> length ws = nat sz \<and>
           (\<forall>k<i. ws ! k = weights ! k) \<and> (i < nat sz \<longrightarrow> ws ! i = f_round fl v)"
  using assms
proof (induction "nat sz - i" arbitrary: i v weights)
  case 0
  then show ?case by (subst initWeights_loop.simps) simp
next
  case (Suc d)
  have lt: "i < nat sz" "int i < sz" using Suc(2) by simp_all
  let ?w = "weights[i := f_round fl v]"
  have "\<exists>ws. initWeights_loop fl sz m (i + 1) (f_mul fl v m) ?w = Some ws \<and> length ws = nat sz \<and>
           (\<forall>k<i + 1. ws ! k = ?w ! k) \<and> (i + 1 < nat sz \<longrightarrow> ws ! (i + 1) = f_round fl (f_mul fl v m))"
    using Suc(2) Suc.prems lt by (intro Suc(1)) simp_all
  then obtain ws where
    ws: "initWeights_loop fl sz m (i + 1) (f_mul fl v m) ?w = Some ws" "length ws = nat sz"
        "\<forall>k<i + 1. ws ! k = ?w ! k" by blast
  have "ws ! i = f_round fl v" using ws(3) lt Suc.prems by simp
  moreover have "\<forall>k<i. ws ! k = weights ! k" using ws(3) by simp
  ultimately show ?case
    using ws(1,2) lt Suc.prems by (subst initWeights_loop.simps) simp
qed

lemma initWeights_ok:
  assumes "0 \<le> sz"
  shows "\<exists>ws. initWeights fl sz ratio = Some ws \<and> length ws = nat sz \<and>
           (1 \<le> sz \<longrightarrow> ws ! 0 = f_round fl (f_of_int fl 1))"
  using assms
    initWeights_loop_ok [of "replicate (nat sz) (f_of_int fl 0)" sz 0 fl
      "f_exp fl (f_div fl (f_log fl ratio) (f_of_int fl (sz - 1)))" "f_of_int fl 1"]
  by (auto simp: initWeights_def Let_def)

lemma NewOperation_ok:
  assumes "0 \<le> q"
  shows "\<exists>ws. NewOperation fl q ratio =
           Some \<lparr> Ratio = ratio, Weights = ws,
                  errors = \<lparr> el_err = replicate (nat q) nilError, el_head = 0 \<rparr>,
                  op_x = 0, op_y = 0 \<rparr> \<and>
           length ws = nat q \<and> (1 \<le> q \<longrightarrow> ws ! 0 = f_round fl (f_of_int fl 1))"
  using assms initWeights_ok [OF assms, of fl ratio]
  by (auto simp: NewOperation_def newErrorList_def)

lemma NewOperation_engine_ok:
  assumes "1 \<le> q"
  shows "\<exists>opr. NewOperation fl q ratio = Some opr \<and> engine_ok q opr \<and>
           op_x opr = 0 \<and> op_y opr = 0 \<and> Ratio opr = ratio \<and>
           el_err (errors opr) = replicate (nat q) nilError"
proof -
  have "0 \<le> q" using assms by simp
  from NewOperation_ok [OF this, of fl ratio] obtain ws where
    w: "NewOperation fl q ratio =
           Some \<lparr> Ratio = ratio, Weights = ws,
                  errors = \<lparr> el_err = replicate (nat q) nilError, el_head = 0 \<rparr>,
                  op_x = 0, op_y = 0 \<rparr>" "length ws = nat q" by blast
  show ?thesis
    using assms w by (simp add: engine_ok_def ring_ok_def entry_ok_def list_all_length)
qed

lemma NewOperation_negative: "q < 0 \<Longrightarrow> NewOperation fl q ratio = None"
  by (simp add: NewOperation_def initWeights_def)

text \<open>
  Claim C8. For every capacity \<open>sz \<ge> 1\<close> and every ratio, \<^verbatim>\<open>initWeights\<close> returns (the
  division by \<^verbatim>\<open>float64(size-1)\<close> is a float division, which does not panic, also
  for \<open>sz = 1\<close>) a sequence of length \<open>sz\<close> whose first element is \<^verbatim>\<open>math.Round(1.0)\<close>,
  that is \<open>1.0\<close>, given that \<^verbatim>\<open>math.Round\<close> leaves \<open>1.0\<close> as it is.
\<close>

theorem C8_initWeights_length_and_first:
  assumes "1 \<le> sz" and "f_round fl (f_of_int fl 1) = f_of_int fl 1"
  shows "\<exists>ws. initWeights fl sz ratio = Some ws \<and> length ws = nat sz \<and>
           ws ! 0 = f_of_int fl 1 \<and> (sz = 1 \<longrightarrow> ws = [f_of_int fl 1])"
proof -
  have "0 \<le> sz" using assms(1) by simp
  from initWeights_ok [OF this, of fl ratio] assms obtain ws where
    ws: "initWeights fl sz ratio = Some ws" "length ws = nat sz" "ws ! 0 = f_of_int fl 1"
    by auto
  have "sz = 1 \<longrightarrow> ws = [f_of_int fl 1]"
    using ws(2,3) by (cases ws) auto
  then show ?thesis using ws by blast
qed

theorem C8_witness:
  "(\<exists>ws. initWeights exact_ops 1 16 = Some ws \<and> length ws = 1 \<and> ws ! 0 = 1 \<and> ws = [1]) \<and>
   (\<exists>ws. initWeights exact_ops 16 16 = Some ws \<and> length ws = 16 \<and> ws ! 0 = 1)"
  using C8_initWeights_length_and_first [of 1 exact_ops 16]
    C8_initWeights_length_and_first [of 16 exact_ops 16]
  by (simp add: round_half_away_def)

text \<open>
  Claim C3, as the code has it. \<^verbatim>\<open>NewOperation\<close> validates nothing: for every ratio
  and every queue size \<open>q \<ge> 0\<close> it returns an engine with that ratio, \<open>q\<close> weights and
  \<open>q\<close> error slots; a negative queue size fails in \<^verbatim>\<open>make\<close>. The ratio is checked
  by the command \<^verbatim>\<open>main\<close>, which panics on \<^verbatim>\<open>ratio <= 0\<close> before it constructs the
  engine and otherwise constructs it with the queue size it was given.
\<close>

theorem C3_construction_checks:
  "(0 \<le> q \<longrightarrow>
      (\<exists>opr. NewOperation fl q ratio = Some opr \<and> Ratio opr = ratio \<and>
         int (length (Weights opr)) = q \<and> Size (errors opr) = q)) \<and>
   (q < 0 \<longrightarrow> NewOperation fl q ratio = None) \<and>
   (f_le fl ratio (f_of_int fl 0) \<longrightarrow> main_NewOperation fl n ratio = None) \<and>
   (\<not> f_le fl ratio (f_of_int fl 0) \<longrightarrow>
      main_NewOperation fl n ratio = NewOperation fl (int n) ratio \<and>
      main_NewOperation fl n ratio \<noteq> None)"
proof -
  have a: "\<exists>opr. NewOperation fl q ratio = Some opr \<and> Ratio opr = ratio \<and>
         int (length (Weights opr)) = q \<and> Size (errors opr) = q" if "0 \<le> q" for q
    using NewOperation_ok [OF that, of fl ratio] that by (auto simp: Size_def)
  have "NewOperation fl (int n) ratio \<noteq> None" using a [of "int n"] by auto
  then show ?thesis using a [of q] by (simp add: NewOperation_negative main_NewOperation_def)
qed

theorem C3_witness:
  "(\<exists>opr. NewOperation exact_ops 4 1 = Some opr \<and> Ratio opr = 1 \<and>
      int (length (Weights opr)) = 4 \<and> Size (errors opr) = 4) \<and>
   NewOperation exact_ops (- 1) 1 = None \<and>
   main_NewOperation exact_ops 16 0 = None \<and>
   main_NewOperation exact_ops 16 (- 1) = None \<and>
   main_NewOperation exact_ops 1 1 = NewOperation exact_ops 1 1 \<and>
   main_NewOperation exact_ops 0 16 \<noteq> None"
  using C3_construction_checks [of 4 exact_ops 1 0]
    C3_construction_checks [of "- 1" exact_ops 1 0]
    C3_construction_checks [of 0 exact_ops 0 16]
    C3_construction_checks [of 0 exact_ops "- 1" 16]
    C3_construction_checks [of 0 exact_ops 1 1]
    C3_construction_checks [of 0 exact_ops 16 0]
  by auto

text \<open>
  Claim C3 as stated fails: \<^verbatim>\<open>NewOperation\<close> returns an engine for the ratios \<open>0\<close>
  and \<open>-1\<close> and for the queue size \<open>0\<close>.
\<close>

theorem C3_counterexample:
  "NewOperation exact_ops 1 0 \<noteq> None \<and> NewOperation exact_ops 1 (- 1) \<noteq> None \<and>
   NewOperation exact_ops 0 1 \<noteq> None"
  using NewOperation_ok [of 1 exact_ops 0] NewOperation_ok [of 1 exact_ops "- 1"]
    NewOperation_ok [of 0 exact_ops 1]
  by auto


subsection \<open>Pixels outside the image\<close>

text \<open>
  Claim C6. When the cursor is outside \<open>[0, width) \<times> [0, height)\<close>, \<^verbatim>\<open>move\<close> returns
  the state it was given with the cursor advanced in the direction of the move, and
  nothing else changed: the destination, the calls of \<^verbatim>\<open>DitherPixel\<close> (none is
  added), the error history with its write cursor, the weights and the ratio.
\<close>

theorem C6_out_of_bounds_only_moves_cursor:
  assumes "\<not> in_bounds img (cursor s)"
  shows "\<exists>s'. move fl img dir s = Some s' \<and> s' = set_cursor (step dir (cursor s)) s \<and>
           cursor s' = step dir (cursor s) \<and> dst s' = dst s \<and> calls s' = calls s \<and>
           errors (rs s') = errors (rs s) \<and> Weights (rs s') = Weights (rs s) \<and>
           Ratio (rs s') = Ratio (rs s)"
  using assms by (simp add: move_out_of_bounds)

text \<open>The cursor at \<open>(2, 1)\<close> on an image of 2 by 2 pixels, moving left.\<close>

theorem C6_witness:
  "\<not> in_bounds (gray_image 2 2) (cursor (set_cursor (2, 1) (start fresh_engine blank))) \<and>
   (\<exists>s'. move exact_ops (gray_image 2 2) dirLEFT (set_cursor (2, 1) (start fresh_engine blank))
            = Some s' \<and>
      cursor s' = (1, 1) \<and> dst s' = blank \<and> calls s' = [] \<and>
      errors (rs s') = errors fresh_engine)"
proof -
  have h: "\<not> in_bounds (gray_image 2 2) (cursor (set_cursor (2, 1) (start fresh_engine blank)))"
    by (simp add: in_bounds_def)
  show ?thesis
    using h C6_out_of_bounds_only_moves_cursor [OF h, of exact_ops dirLEFT] by simp
qed

text \<open>
  Claim C9. When the width or the height of the region is \<open>0\<close>, \<^verbatim>\<open>Dither\<close> returns
  normally and has dithered no pixel: no call of \<^verbatim>\<open>DitherPixel\<close> is added, the
  destination and the error history are as before.
\<close>

theorem C9_empty_region:
  assumes "fst (img_size img) = 0 \<or> snd (img_size img) = 0"
  shows "\<exists>s'. Dither fl img s = Some s' \<and> calls s' = calls s \<and> dst s' = dst s \<and>
           errors (rs s') = errors (rs s)"
proof -
  have nb: "\<not> in_bounds img p" for p
    using assms by (auto simp: in_bounds_def)
  obtain d ds where ds: "hpath (nat (dither_level img)) dirUP @ [dirNONE] = d # ds"
    by (cases "hpath (nat (dither_level img)) dirUP @ [dirNONE]") auto
  have "Dither fl img s = Some (set_cursor (endpos (cursor s) (d # ds)) s)"
    unfolding Dither_moves ds by (rule moves_nowhere_in_bounds) (rule nb)
  then show ?thesis by simp
qed

text \<open>
  A region of width 0 and height 5, cut by \<^verbatim>\<open>NewImage\<close> from a destination rectangle
  of no width: the curve of order 3 is walked and nothing is dithered.
\<close>

theorem C9_witness:
  "fst (img_size (NewImage keep_Set keep_At ((0, 0), (0, 5))
      (\<lambda>px py. NRGBA64 0 0 0 0) (7, 5) (0, 0))) = 0 \<and>
   (\<exists>s'. Dither exact_ops
       (NewImage keep_Set keep_At ((0, 0), (0, 5)) (\<lambda>px py. NRGBA64 0 0 0 0) (7, 5) (0, 0))
       (start fresh_engine blank) = Some s' \<and>
      calls s' = [] \<and> dst s' = blank \<and> errors (rs s') = errors fresh_engine)"
proof -
  let ?img = "NewImage keep_Set keep_At ((0, 0), (0, 5)) (\<lambda>px py. NRGBA64 0 0 0 0) (7, 5) (0, 0)"
  have h: "fst (img_size ?img) = 0 \<or> snd (img_size ?img) = 0"
    by (simp add: NewImage_def)
  show ?thesis
    using C9_empty_region [OF h, of exact_ops "start fresh_engine blank"]
    by (simp add: NewImage_def)
qed


subsection \<open>Indexing safety\<close>

lemma hilbertLevel_ok:
  assumes "1 \<le> level" and "engine_ok q (rs s)" and "numChannels img = 4"
  shows "\<exists>s'. hilbertLevel fl img level dir s = Some s' \<and> engine_ok q (rs s')"
proof -
  define n where "n = nat level - 1"
  have l: "level = int (Suc n)" using assms(1) by (simp add: n_def)
  show ?thesis
    unfolding l hilbertLevel_moves
    using moves_ok [OF assms(2,3), of fl "hpath (Suc n) dir"] by blast
qed

lemma engine_ok_Get:
  assumes "engine_ok q opr" and "0 \<le> i" and "i < q"
  shows "\<exists>e. Get (errors opr) i = Some e \<and> entry_ok 4 e"
proof -
  have r: "ring_ok (errors opr)" and l: "length (el_err (errors opr)) = nat q"
    and a: "list_all (entry_ok 4) (contents (errors opr))"
    using assms(1) by (simp_all add: engine_ok_def list_all_contents)
  have g: "Get (errors opr) i = Some (contents (errors opr) ! nat i)"
    using Get_contents [OF r assms(2)] l assms(3) by simp
  have "nat i < length (contents (errors opr))"
    using l assms(2,3) by (simp add: length_contents)
  then have "entry_ok 4 (contents (errors opr) ! nat i)"
    using a by (simp add: list_all_length)
  then show ?thesis using g by simp
qed

lemma engine_ok_Rotate:
  assumes "engine_ok q opr"
  shows "\<exists>el'. Rotate (errors opr) v = Some el' \<and> 0 \<le> el_head el' \<and> el_head el' < q \<and>
           Size el' = q"
proof -
  have r: "ring_ok (errors opr)" and l: "length (el_err (errors opr)) = nat q" and q: "1 \<le> q"
    using assms by (simp_all add: engine_ok_def)
  from Rotate_contents [OF r, of v] obtain el' where
    "Rotate (errors opr) v = Some el'" "ring_ok el'"
    "length (el_err el') = length (el_err (errors opr))" by blast
  then show ?thesis using l q by (auto simp: ring_ok_def Size_def)
qed

text \<open>
  Claim C10. \<^verbatim>\<open>NewOperation\<close> with a queue size \<open>q \<ge> 1\<close> returns an engine in a state
  where the write cursor \<^verbatim>\<open>head\<close> is in \<open>[0, q)\<close> and \<^verbatim>\<open>len(Weights)\<close> and
  \<^verbatim>\<open>errors.Size()\<close> are both \<open>q\<close>. In every such state \<^verbatim>\<open>Get(i)\<close> for \<open>0 \<le> i < q\<close>,
  \<^verbatim>\<open>Rotate\<close> and \<^verbatim>\<open>AccumulatedError\<close> return normally, which in the model means that
  every index they use is in range; and \<^verbatim>\<open>Rotate\<close>, \<^verbatim>\<open>move\<close>, \<^verbatim>\<open>hilbertLevel\<close> and
  \<^verbatim>\<open>Dither\<close> on a four-channel image return normally in such a state again.
\<close>

theorem C10_indexing_safety:
  assumes "1 \<le> q"
  shows "(\<exists>opr. NewOperation fl q ratio = Some opr \<and> engine_ok q opr) \<and>
    (\<forall>opr. engine_ok q opr \<longrightarrow>
       0 \<le> el_head (errors opr) \<and> el_head (errors opr) < q \<and>
       Size (errors opr) = q \<and> int (length (Weights opr)) = Size (errors opr) \<and>
       (\<forall>i. 0 \<le> i \<and> i < q \<longrightarrow> Get (errors opr) i \<noteq> None) \<and>
       (\<forall>v. \<exists>el'. Rotate (errors opr) v = Some el' \<and> 0 \<le> el_head el' \<and> el_head el' < q \<and>
              Size el' = q) \<and>
       AccumulatedError fl opr 4 \<noteq> None) \<and>
    (\<forall>img (s :: ('f, 'd) run_state). numChannels img = 4 \<and> engine_ok q (rs s) \<longrightarrow>
       (\<forall>dir. \<exists>s'. move fl img dir s = Some s' \<and> engine_ok q (rs s')) \<and>
       (\<forall>level dir. 1 \<le> level \<longrightarrow>
          (\<exists>s'. hilbertLevel fl img level dir s = Some s' \<and> engine_ok q (rs s'))) \<and>
       (\<exists>s'. Dither fl img s = Some s' \<and> engine_ok q (rs s')))"
proof (intro conjI allI impI)
  show "\<exists>opr. NewOperation fl q ratio = Some opr \<and> engine_ok q opr"
    using NewOperation_engine_ok [OF assms, of fl ratio] by blast
next
  fix opr :: "'f Op"
  assume ok: "engine_ok q opr"
  show "0 \<le> el_head (errors opr)" "el_head (errors opr) < q" "Size (errors opr) = q"
    "int (length (Weights opr)) = Size (errors opr)"
    using ok by (auto simp: engine_ok_def ring_ok_def Size_def)
  show "AccumulatedError fl opr 4 \<noteq> None"
    using AccumulatedError_formula [OF ok, of fl] by simp
  show "\<exists>el'. Rotate (errors opr) v = Some el' \<and> 0 \<le> el_head el' \<and> el_head el' < q \<and>
           Size el' = q" for v
    using engine_ok_Rotate [OF ok] .
  show "Get (errors opr) i \<noteq> None" if "0 \<le> i \<and> i < q" for i
    using engine_ok_Get [OF ok, of i] that by auto
next
  fix img :: "'d anyImage" and s :: "('f, 'd) run_state"
  assume a: "numChannels img = 4 \<and> engine_ok q (rs s)"
  show "\<exists>s'. move fl img dir s = Some s' \<and> engine_ok q (rs s')" for dir
    using move_ok [of q s img fl dir] a by blast
  show "\<exists>s'. hilbertLevel fl img level dir s = Some s' \<and> engine_ok q (rs s')"
    if "1 \<le> level" for level dir
    using hilbertLevel_ok [OF that, of q s img fl dir] a by blast
  show "\<exists>s'. Dither fl img s = Some s' \<and> engine_ok q (rs s')"
    using Dither_ok [of q s img fl] a by blast
qed

text \<open>
  The engine \<^verbatim>\<open>NewOperation(2, 2.0)\<close>: it satisfies the invariant, its reads at the
  indices 0 and 1 and a rotation return, and so does a run on a gray image of 3 by 2
  pixels.
\<close>

theorem C10_witness:
  "NewOperation exact_ops 2 2 = Some fresh_engine \<and> engine_ok 2 fresh_engine \<and>
   Get (errors fresh_engine) 0 \<noteq> None \<and> Get (errors fresh_engine) 1 \<noteq> None \<and>
   Rotate (errors fresh_engine) nilError \<noteq> None \<and>
   AccumulatedError exact_ops fresh_engine 4 \<noteq> None \<and>
   move exact_ops (gray_image 3 2) dirDOWN (start fresh_engine blank) \<noteq> None \<and>
   hilbertLevel exact_ops (gray_image 3 2) 2 dirUP (start fresh_engine blank) \<noteq> None \<and>
   Dither exact_ops (gray_image 3 2) (start fresh_engine blank) \<noteq> None"
proof -
  have q: "(1::int) \<le> 2" by simp
  note t = C10_indexing_safety [OF q, of exact_ops 2]
  note t2 = t [THEN conjunct2, THEN conjunct1, rule_format, OF fresh_engine_ok]
  have ok: "numChannels (gray_image 3 2) = 4 \<and> engine_ok 2 (rs (start fresh_engine blank))"
    using fresh_engine_ok by simp
  note t3 = t [THEN conjunct2, THEN conjunct2, rule_format, OF ok]
  have "Get (errors fresh_engine) 0 \<noteq> None" "Get (errors fresh_engine) 1 \<noteq> None"
    using t2 by simp_all
  moreover have "Rotate (errors fresh_engine) nilError \<noteq> None"
    using t2 [THEN conjunct2] by (metis option.distinct(1))
  moreover have "AccumulatedError exact_ops fresh_engine 4 \<noteq> None" using t2 by simp
  moreover have "move exact_ops (gray_image 3 2) dirDOWN (start fresh_engine blank) \<noteq> None"
    using t3 [THEN conjunct1, rule_format, of dirDOWN] by auto
  moreover have
    "hilbertLevel exact_ops (gray_image 3 2) 2 dirUP (start fresh_engine blank) \<noteq> None"
    using t3 [THEN conjunct2, THEN conjunct1, rule_format, of 2 dirUP] by auto
  moreover have "Dither exact_ops (gray_image 3 2) (start fresh_engine blank) \<noteq> None"
    using t3 [THEN conjunct2, THEN conjunct2] by auto
  ultimately show ?thesis using NewOperation_fresh fresh_engine_ok by simp
qed


subsection \<open>A destination of full fidelity\<close>

lemma sint_ucast_16_32: "sint (ucast (c :: 16 word) :: 32 word) = uint c"
proof -
  have "uint c < 2 ^ 16" using uint_bounded [of c] by simp
  then have "uint c < 2 ^ 31" by simp
  moreover have "(- (2 ^ 31) :: int) \<le> 0" by simp
  then have "- (2 ^ 31) \<le> uint c" using uint_nonnegative [of c] by (rule order_trans)
  ultimately have "- (2 ^ 31) \<le> uint c" "uint c < 2 ^ 31" by blast+
  then have "signed_take_bit 31 (uint c) = uint c" by (rule signed_take_bit_int_eq_self)
  then show ?thesis by (simp add: signed_ucast_eq)
qed

lemma ucast_ucast_16_32: "ucast (ucast (c :: 16 word) :: 32 word) = c"
  by (rule ucast_up_ucast_id) (simp add: is_up)

lemma clamp_ucast: "clamp (ucast (c :: 16 word)) = c"
proof -
  have "uint c < 2 ^ 16" using uint_bounded [of c] by simp
  then show ?thesis
    by (simp add: clamp_def word_sless_alt sint_ucast_16_32 ucast_ucast_16_32)
qed


lemma acc_step_zero:
  assumes "e = nilError \<or> e = Vals (zero_vec fl)"
    and "f_muladd fl (f_of_int fl 0) (f_of_int fl 0) w = f_of_int fl 0"
  shows "acc_step fl 4 e w (zero_vec fl) = zero_vec fl"
  using assms by (auto simp: acc_step_def zero_vec_def numeral_eq_Suc)

lemma acc_sum_zero:
  assumes "list_all (\<lambda>e. e = nilError \<or> e = Vals (zero_vec fl)) es"
    and "\<forall>w \<in> set ws. f_muladd fl (f_of_int fl 0) (f_of_int fl 0) w = f_of_int fl 0"
  shows "foldl (\<lambda>a (e, w). acc_step fl 4 e w a) (zero_vec fl) (zip es ws) = zero_vec fl"
  using assms
proof (induction es arbitrary: ws)
  case Nil
  then show ?case by simp
next
  case (Cons e es)
  show ?case
  proof (cases ws)
    case Nil
    then show ?thesis by simp
  next
    case (Cons w ws')
    then show ?thesis using Cons.prems Cons.IH [of ws'] by (simp add: acc_step_zero)
  qed
qed

lemma zero_history_contents:
  "zero_history fl opr =
     list_all (\<lambda>e. e = nilError \<or> e = Vals (zero_vec fl)) (contents (errors opr))"
  by (simp add: zero_history_def list_all_contents)

lemma acc_formula_zero:
  assumes "zero_laws fl opr" and "zero_history fl opr"
  shows "acc_formula fl opr 4 = zero_vec fl"
proof -
  have "acc_sum fl 4 (contents (errors opr)) (Weights opr) = zero_vec fl"
    using assms acc_sum_zero [of fl "contents (errors opr)" "Weights opr"]
    by (simp add: acc_sum_def zero_laws_def zero_history_contents zero_vec_def)
  then show ?thesis using assms(1) by (simp add: acc_formula_def zero_laws_def zero_vec_def)
qed

lemma adjust_zero:
  assumes "f_to_int32 fl (f_round fl (f_of_int fl 0)) = 0"
  shows "adjust fl sc (zero_vec fl) = Some sc"
  using assms by (cases sc) (simp add: adjust_def zero_vec_def clamp_ucast)

lemma color_diff_zero:
  assumes "\<forall>c. f_sub fl (f_of_u16 fl c) (f_of_u16 fl c) = f_of_int fl 0"
  shows "color_diff fl sc sc = zero_vec fl"
  using assms by (simp add: color_diff_def zero_vec_def numeral_eq_Suc)

lemma zero_set_cursor [simp]:
  "zero_laws fl (rs (set_cursor p s)) = zero_laws fl (rs s)"
  "zero_history fl (rs (set_cursor p s)) = zero_history fl (rs s)"
  by (simp_all add: zero_laws_def zero_history_def)

lemma move_zero:
  assumes "full_fidelity img" and "numChannels img = 4" and "engine_ok q (rs s)"
    and "zero_laws fl (rs s)" and "zero_history fl (rs s)"
  shows "\<exists>s'. move fl img dir s = Some s' \<and> engine_ok q (rs s') \<and> zero_laws fl (rs s') \<and>
           zero_history fl (rs s') \<and>
           (\<exists>es. calls s' = calls s @ es \<and> list_all (zero_event fl img) es)"
proof (cases "in_bounds img (cursor s)")
  case False
  then show ?thesis using assms by (simp add: move_out_of_bounds)
next
  case True
  let ?sc = "src_At img (fst (img_sp img) + op_x (rs s)) (snd (img_sp img) + op_y (rs s))"
  have z: "acc_formula fl (rs s) 4 = zero_vec fl"
    using acc_formula_zero [OF assms(4,5)] .
  have a: "adjust fl ?sc (zero_vec fl) = Some ?sc"
    using assms(4) by (intro adjust_zero) (simp add: zero_laws_def)
  have cd: "color_diff fl ?sc ?sc = zero_vec fl"
    using assms(4) by (intro color_diff_zero) (simp add: zero_laws_def)
  from dither_current_ok [OF assms(3,2), of fl] obtain el' nc where
    n: "adjust fl ?sc (acc_formula fl (rs s) 4) = Some nc"
    and r: "Rotate (errors (rs s))
             (Vals (color_diff fl ?sc
                (dst_At img
                   (dst_Set img (dst s) (fst (img_dp img) + op_x (rs s))
                      (snd (img_dp img) + op_y (rs s)) nc)
                   (fst (img_dp img) + op_x (rs s)) (snd (img_dp img) + op_y (rs s)))))
             = Some el'"
    and d: "dither_current fl img s =
             Some \<lparr> rs = (rs s)\<lparr> errors := el' \<rparr>,
                    dst = dst_Set img (dst s) (fst (img_dp img) + op_x (rs s))
                            (snd (img_dp img) + op_y (rs s)) nc,
                    calls = calls s @
                      [\<lparr> ev_x = op_x (rs s), ev_y = op_y (rs s),
                         ev_acc = acc_formula fl (rs s) 4, ev_proposed = nc,
                         ev_error = Vals (color_diff fl ?sc
                           (dst_At img
                              (dst_Set img (dst s) (fst (img_dp img) + op_x (rs s))
                                 (snd (img_dp img) + op_y (rs s)) nc)
                              (fst (img_dp img) + op_x (rs s))
                              (snd (img_dp img) + op_y (rs s)))) \<rparr>] \<rparr>"
    by blast
  have nc: "nc = ?sc" using n z a by simp
  have rb: "dst_At img
                   (dst_Set img (dst s) (fst (img_dp img) + op_x (rs s))
                      (snd (img_dp img) + op_y (rs s)) nc)
                   (fst (img_dp img) + op_x (rs s)) (snd (img_dp img) + op_y (rs s)) = ?sc"
    using assms(1) nc by (simp add: full_fidelity_def)
  have r': "Rotate (errors (rs s)) (Vals (zero_vec fl)) = Some el'"
    using r rb cd by simp
  have d': "dither_current fl img s =
             Some \<lparr> rs = (rs s)\<lparr> errors := el' \<rparr>,
                    dst = dst_Set img (dst s) (fst (img_dp img) + op_x (rs s))
                            (snd (img_dp img) + op_y (rs s)) ?sc,
                    calls = calls s @
                      [\<lparr> ev_x = op_x (rs s), ev_y = op_y (rs s),
                         ev_acc = zero_vec fl, ev_proposed = ?sc,
                         ev_error = Vals (zero_vec fl) \<rparr>] \<rparr>"
    using d rb cd z nc by simp
  have e4: "entry_ok 4 (Vals (zero_vec fl))" by (simp add: entry_ok_def zero_vec_def)
  have ok: "engine_ok q ((rs s)\<lparr> errors := el' \<rparr>)"
    using Rotate_engine_ok [OF assms(3) e4 r'] .
  have ro: "ring_ok (errors (rs s))" using assms(3) by (simp add: engine_ok_def)
  from Rotate_contents [OF ro, of "Vals (zero_vec fl)"] r' have
    c: "contents el' = tl (contents (errors (rs s))) @ [Vals (zero_vec fl)]" by auto
  have "list_all (\<lambda>e. e = nilError \<or> e = Vals (zero_vec fl)) (contents (errors (rs s)))"
    using assms(5) by (simp add: zero_history_contents)
  then have "list_all (\<lambda>e. e = nilError \<or> e = Vals (zero_vec fl)) (contents el')"
    unfolding c by (cases "contents (errors (rs s))") simp_all
  then have zh: "zero_history fl ((rs s)\<lparr> errors := el' \<rparr>)"
    by (simp add: zero_history_contents)
  have zl: "zero_laws fl ((rs s)\<lparr> errors := el' \<rparr>)"
    using assms(4) by (simp add: zero_laws_def)
  show ?thesis
    using True d' ok zh zl
    by (simp add: move_def zero_event_def)
qed

lemma moves_zero:
  assumes "full_fidelity img" and "numChannels img = 4" and "engine_ok q (rs s)"
    and "zero_laws fl (rs s)" and "zero_history fl (rs s)"
  shows "\<exists>s'. moves fl img ds s = Some s' \<and> engine_ok q (rs s') \<and> zero_laws fl (rs s') \<and>
           zero_history fl (rs s') \<and>
           (\<exists>es. calls s' = calls s @ es \<and> list_all (zero_event fl img) es)"
  using assms(3,4,5)
proof (induction ds arbitrary: s)
  case Nil
  then show ?case by simp
next
  case (Cons d ds)
  from move_zero [OF assms(1,2) Cons.prems, of d] obtain s1 es1 where
    m: "move fl img d s = Some s1" "engine_ok q (rs s1)" "zero_laws fl (rs s1)"
       "zero_history fl (rs s1)" "calls s1 = calls s @ es1" "list_all (zero_event fl img) es1"
    by blast
  from Cons.IH [OF m(2,3,4)] obtain s2 es2 where
    n: "moves fl img ds s1 = Some s2" "engine_ok q (rs s2)" "zero_laws fl (rs s2)"
       "zero_history fl (rs s2)" "calls s2 = calls s1 @ es2" "list_all (zero_event fl img) es2"
    by blast
  have "calls s2 = calls s @ (es1 @ es2)" "list_all (zero_event fl img) (es1 @ es2)"
    using m n by simp_all
  then show ?case using m(1) n(1,2,3,4) by (simp del: append_assoc)
qed

text \<open>
  The zero error of a run, for every arithmetic that satisfies \<open>zero_laws\<close> on the
  engine: no other fact of \<^verbatim>\<open>float64\<close> is used.
\<close>

lemma Dither_zero:
  assumes "full_fidelity img" and "numChannels img = 4" and "engine_ok q (rs s)"
    and "zero_laws fl (rs s)" and "zero_history fl (rs s)" and "calls s = []"
  shows "\<exists>s'. Dither fl img s = Some s' \<and> list_all (zero_event fl img) (calls s')"
  using moves_zero [OF assms(1-5), of "hpath (nat (dither_level img)) dirUP @ [dirNONE]"] assms(6)
  by (auto simp: Dither_moves)

subsection \<open>The arithmetic with special values\<close>

lemma xfloat_ops_simps [simp]:
  "f_of_int xfloat_ops = (\<lambda>n. Finite (of_int n))" "f_mul xfloat_ops = x_mul"
  "f_div xfloat_ops = x_div" "f_sub xfloat_ops = (\<lambda>a b. x_add a (x_neg b))"
  "f_muladd xfloat_ops = (\<lambda>a b c. x_add a (x_mul b c))"
  "f_round xfloat_ops = x_round" "f_to_int32 xfloat_ops = x_to_int32"
  "f_le xfloat_ops = x_le" "f_exp xfloat_ops = x_exp" "f_log xfloat_ops = x_log"
  by (simp_all add: xfloat_ops_def)

lemma trunc_int32_zero: "trunc_int32 0 = 0"
  by (simp add: trunc_int32_def)

text \<open>
  In this arithmetic the facts \<open>zero_laws\<close> hold for every engine whose ratio is
  neither zero nor a NaN and whose weights are finite.
\<close>

lemma zero_laws_xfloat:
  assumes "Ratio opr \<noteq> Finite 0" and "Ratio opr \<noteq> NaN"
    and "\<forall>w \<in> set (Weights opr). x_finite w"
  shows "zero_laws xfloat_ops opr"
proof -
  have w: "x_add (Finite 0) (x_mul (Finite 0) w) = Finite 0" if "x_finite w" for w
    using that by (cases w) simp_all
  have r: "x_div (Finite 0) (Ratio opr) = Finite 0"
    using assms(1,2) by (cases "Ratio opr") simp_all
  have i: "x_to_int32 (x_round (Finite 0)) = 0"
    by (simp add: round_half_away_def trunc_int32_zero)
  show ?thesis
    using w r i assms(3) by (simp add: zero_laws_def f_of_u16_def)
qed

lemma NewOperation_ratio_two:
  "NewOperation xfloat_ops 2 (Finite 2) = Some ratio_two_engine"
  apply (simp add: NewOperation_def initWeights_def newErrorList_def ratio_two_engine_def Let_def)
  apply (subst initWeights_loop.simps, simp)
  apply (subst initWeights_loop.simps, simp)
  apply (subst initWeights_loop.simps, simp add: round_half_away_def numeral_2_eq_2)
  done

lemma NewOperation_zero_ratio:
  "NewOperation xfloat_ops 2 (Finite 0) = Some zero_ratio_engine"
  apply (simp add: NewOperation_def initWeights_def newErrorList_def zero_ratio_engine_def Let_def
    x_inf_def)
  apply (subst initWeights_loop.simps, simp)
  apply (subst initWeights_loop.simps, simp)
  apply (subst initWeights_loop.simps, simp add: round_half_away_def numeral_2_eq_2)
  done

lemma full_fidelity_gray: "full_fidelity (gray_image w h)"
  by (simp add: full_fidelity_def gray_image_def NewImage_def keep_Set_def keep_At_def)

lemma gray_image_src [simp]:
  "src_At (gray_image w h) a b = NRGBA64 0x8000 0x8000 0x8000 0xffff"
  "img_sp (gray_image w h) = (0, 0)" "img_dp (gray_image w h) = (0, 0)"
  "dst_At (gray_image w h) (dst_Set (gray_image w h) d a b c) a b = c"
  by (simp_all add: gray_image_def NewImage_def keep_Set_def keep_At_def)

lemma ratio_two_engine_ok: "engine_ok 2 ratio_two_engine"
  by (simp add: engine_ok_def ratio_two_engine_def ring_ok_def entry_ok_def)

lemma zero_ratio_engine_ok: "engine_ok 2 zero_ratio_engine"
  by (simp add: engine_ok_def zero_ratio_engine_def ring_ok_def entry_ok_def)

text \<open>The first pixel of the engine with the ratio 0 on the gray image.\<close>

lemma acc_formula_zero_ratio:
  "acc_formula xfloat_ops zero_ratio_engine 4 = [NaN, NaN, NaN, NaN]"
  by (simp add: acc_formula_def acc_sum_def acc_step_def contents_def zero_ratio_engine_def
        numeral_eq_Suc)

lemma clamp_min_int32:
  "clamp (- 2147450880) = 0" "clamp (- 2147418113) = 0"
  by (simp_all add: clamp_def word_sless_alt)

lemma adjust_NaN:
  "adjust xfloat_ops (NRGBA64 0x8000 0x8000 0x8000 0xffff) [NaN, NaN, NaN, NaN]
     = Some (NRGBA64 0 0 0 0)"
  by (simp add: adjust_def clamp_min_int32)

lemma color_diff_gray:
  "color_diff xfloat_ops (NRGBA64 0x8000 0x8000 0x8000 0xffff) (NRGBA64 0 0 0 0)
     = [Finite 32768, Finite 32768, Finite 32768, Finite 65535]"
  by (simp add: color_diff_def f_of_u16_def)

lemma level_1x1: "dither_level (gray_image 1 1) = 0"
  using dither_level_square [of "gray_image 1 1" 0] by simp

lemma zero_ratio_run:
  "\<exists>s'. Dither xfloat_ops (gray_image 1 1) (start zero_ratio_engine blank) = Some s' \<and>
     map ev_acc (calls s') = [[NaN, NaN, NaN, NaN]] \<and>
     map ev_proposed (calls s') = [NRGBA64 0 0 0 0] \<and>
     map ev_error (calls s') = [Vals [Finite 32768, Finite 32768, Finite 32768, Finite 65535]]"
proof -
  define s0 where "s0 = start zero_ratio_engine blank"
  have ok: "engine_ok 2 (rs s0)" using zero_ratio_engine_ok by (simp add: s0_def)
  have n: "numChannels (gray_image 1 1) = 4" by simp
  have a: "acc_formula xfloat_ops (rs s0) 4 = [NaN, NaN, NaN, NaN]"
    using acc_formula_zero_ratio by (simp add: s0_def)
  have ib: "in_bounds (gray_image 1 1) (cursor s0)"
    by (simp add: in_bounds_def s0_def zero_ratio_engine_def)
  from dither_current_ok [OF ok n, of xfloat_ops] obtain s1 where
    d: "dither_current xfloat_ops (gray_image 1 1) s0 = Some s1"
    and c: "calls s1 = calls s0 @
              [\<lparr> ev_x = op_x (rs s0), ev_y = op_y (rs s0), ev_acc = [NaN, NaN, NaN, NaN],
                 ev_proposed = NRGBA64 0 0 0 0,
                 ev_error = Vals [Finite 32768, Finite 32768, Finite 32768, Finite 65535] \<rparr>]"
    by (auto simp: a adjust_NaN color_diff_gray)
  have "Dither xfloat_ops (gray_image 1 1) s0 = Some (set_cursor (step dirNONE (cursor s1)) s1)"
    using ib d by (simp add: Dither_moves level_1x1 move_def)
  moreover have "calls (set_cursor (step dirNONE (cursor s1)) s1) = calls s1"
    by (simp add: set_cursor_def)
  ultimately show ?thesis using c by (simp add: s0_def)
qed

text \<open>
  Claim C7, as the code has it. With a destination that returns on reading a pixel the
  color proposed for it, an engine whose ratio is neither zero nor a NaN and whose
  weights are finite, and a history that holds no error yet, a run returns and every
  call of \<^verbatim>\<open>DitherPixel\<close> of it is given the zero accumulated error, proposes the
  source color and returns the zero error in its four channels. The arithmetic is the
  one with the special values of binary64; the conditions on the ratio and on the
  weights are what the zero error needs of it (\<open>0 / ratio = 0\<close> and \<open>0 + 0 * w = 0\<close>),
  and the code checks neither.
\<close>

theorem C7_full_fidelity_zero_error:
  assumes "full_fidelity img" and "numChannels img = 4" and "engine_ok q (rs s)"
    and "Ratio (rs s) \<noteq> Finite 0" and "Ratio (rs s) \<noteq> NaN"
    and "\<forall>w \<in> set (Weights (rs s)). x_finite w"
    and "zero_history xfloat_ops (rs s)" and "calls s = []"
  shows "\<exists>s'. Dither xfloat_ops img s = Some s' \<and>
           (\<forall>e \<in> set (calls s'). ev_error e = Vals (replicate 4 (Finite 0)) \<and>
              ev_acc e = replicate 4 (Finite 0) \<and>
              ev_proposed e = src_At img (fst (img_sp img) + ev_x e) (snd (img_sp img) + ev_y e))"
  using Dither_zero [OF assms(1-3) zero_laws_xfloat [OF assms(4-6)] assms(7,8)]
  by (auto simp: list_all_iff zero_event_def zero_vec_def)

text \<open>
  The engine \<^verbatim>\<open>NewOperation(2, 2.0)\<close>, on a gray image of 2 by 2 pixels drawn on a
  destination that keeps every color.
\<close>

theorem C7_witness:
  "full_fidelity (gray_image 2 2) \<and>
   NewOperation xfloat_ops 2 (Finite 2) = Some ratio_two_engine \<and>
   (\<exists>s'. Dither xfloat_ops (gray_image 2 2) (start ratio_two_engine blank) = Some s' \<and>
      (\<forall>e \<in> set (calls s'). ev_error e = Vals [Finite 0, Finite 0, Finite 0, Finite 0] \<and>
         ev_acc e = [Finite 0, Finite 0, Finite 0, Finite 0] \<and>
         ev_proposed e = NRGBA64 0x8000 0x8000 0x8000 0xffff))"
proof -
  have f: "full_fidelity (gray_image 2 2)" by (rule full_fidelity_gray)
  have r: "Ratio (rs (start ratio_two_engine blank)) \<noteq> Finite 0"
    "Ratio (rs (start ratio_two_engine blank)) \<noteq> NaN"
    and w: "\<forall>w \<in> set (Weights (rs (start ratio_two_engine blank))). x_finite w"
    by (simp_all add: ratio_two_engine_def)
  have h: "zero_history xfloat_ops (rs (start ratio_two_engine blank))"
    by (simp add: zero_history_def ratio_two_engine_def)
  have n: "numChannels (gray_image 2 2) = 4" and c: "calls (start ratio_two_engine blank) = []"
    and ok: "engine_ok 2 (rs (start ratio_two_engine blank))"
    using ratio_two_engine_ok by simp_all
  have "replicate 4 (Finite 0) = [Finite 0, Finite 0, Finite 0, Finite 0]"
    by (simp add: numeral_eq_Suc)
  then show ?thesis
    using f NewOperation_ratio_two C7_full_fidelity_zero_error [OF f n ok r w h c]
    by simp
qed

text \<open>
  Claim C7 as it is stated, for every run, at a run where it fails: the engine
  \<^verbatim>\<open>NewOperation(2, 0)\<close>, which the constructor accepts, on a gray image of one pixel
  drawn on a destination that keeps every color. The history is empty and the
  weighted sum is \<open>0\<close>; \<^verbatim>\<open>acc[j] /= rs.Ratio\<close> is \<open>0 / 0\<close>, so the accumulated error
  given to \<^verbatim>\<open>DitherPixel\<close> is NaN in every channel, not zero. \<^verbatim>\<open>math.Round\<close> returns
  the NaN, \<^verbatim>\<open>int32\<close> of it is \<open>- 2 ^ 31\<close> on amd64, the \<^verbatim>\<open>int32\<close> sums are negative and
  \<^verbatim>\<open>clamp\<close> gives 0: the color proposed is \<open>(0, 0, 0, 0)\<close>, the destination returns
  it, and the error returned is the source color, \<open>[32768, 32768, 32768, 65535]\<close>.
\<close>

theorem C7_counterexample:
  "full_fidelity (gray_image 1 1) \<and>
   NewOperation xfloat_ops 2 (Finite 0) = Some zero_ratio_engine \<and>
   zero_history xfloat_ops zero_ratio_engine \<and>
   Dither xfloat_ops (gray_image 1 1) (start zero_ratio_engine blank) \<noteq> None \<and>
   accumulated_errors (Dither xfloat_ops (gray_image 1 1) (start zero_ratio_engine blank)) =
     [[NaN, NaN, NaN, NaN]] \<and>
   proposed_colors (Dither xfloat_ops (gray_image 1 1) (start zero_ratio_engine blank)) =
     [NRGBA64 0 0 0 0] \<and>
   returned_errors (Dither xfloat_ops (gray_image 1 1) (start zero_ratio_engine blank)) =
     [Vals [Finite 32768, Finite 32768, Finite 32768, Finite 65535]]"
proof -
  have "zero_history xfloat_ops zero_ratio_engine"
    by (simp add: zero_history_def zero_ratio_engine_def)
  then show ?thesis
    using zero_ratio_run NewOperation_zero_ratio full_fidelity_gray [of 1 1]
    by (auto simp: accumulated_errors_def proposed_colors_def returned_errors_def)
qed

subsection \<open>The proposed color\<close>

text \<open>
  When the \<^verbatim>\<open>int32\<close> sum of a channel and its rounded error does not wrap, the channel
  that \<^verbatim>\<open>DitherPixel\<close> proposes is the clamped integer sum.
\<close>

lemma sint_sum_no_wrap:
  assumes "- (2 ^ 31) \<le> uint c + sint i" and "uint c + sint i < 2 ^ 31"
  shows "sint (ucast (c :: 16 word) + (i :: 32 word)) = uint c + sint i"
proof -
  have "signed_take_bit 31 (uint c + sint i) = uint c + sint i"
    using assms by (rule signed_take_bit_int_eq_self)
  moreover have "sint (ucast c + i)
      = signed_take_bit (LENGTH(32) - 1) (sint (ucast c :: 32 word) + sint i)"
    by (rule sint_word_add)
  ultimately show ?thesis by (simp only: sint_ucast_16_32) simp
qed

lemma ucast_32_16: "(ucast (w :: 32 word) :: 16 word) = word_of_int (sint w)"
proof -
  have "is_down (ucast :: 32 word \<Rightarrow> 16 word)" by (simp add: is_down)
  then have "(ucast :: 32 word \<Rightarrow> 16 word) = scast" by (rule down_cast_same)
  then show ?thesis by (simp only: scast_eq)
qed

lemma clamp_no_wrap:
  assumes "- (2 ^ 31) \<le> uint c + sint i" and "uint c + sint i < 2 ^ 31"
  shows "clamp (ucast (c :: 16 word) + i) = claimed_channel c (sint i)"
proof -
  have s: "sint (ucast c + i) = uint c + sint i"
    using assms by (rule sint_sum_no_wrap)
  have z: "sint (0 :: 32 word) = 0" "sint (0xffff :: 32 word) = 65535" by simp_all
  let ?x = "uint c + sint i"
  have c: "clamp (ucast c + i)
      = (if ?x < 0 then 0 else if 65535 < ?x then 0xffff else word_of_int ?x)"
    by (simp only: clamp_def word_sless_alt s z ucast_32_16)
  have "(word_of_int (max 0 (min 0xffff ?x)) :: 16 word)
      = (if ?x < 0 then 0 else if 65535 < ?x then 0xffff else word_of_int ?x)"
    by (auto simp: max_def min_def)
  then show ?thesis by (simp only: c claimed_channel_def)
qed


lemma clamp_small_error:
  assumes "sint i \<le> 2147418112"
  shows "clamp (ucast (c :: 16 word) + i) = claimed_channel c (sint i)"
proof -
  have "uint c < 2 ^ 16" using uint_bounded [of c] by simp
  then have u: "uint c + sint i < 2 ^ 31" using assms by simp
  have "- (2 ^ 31) \<le> sint i" using sint_ge [of i] by simp
  then have l: "- (2 ^ 31) \<le> uint c + sint i" using uint_nonnegative [of c] by linarith
  show ?thesis using l u by (rule clamp_no_wrap)
qed

lemma adjust_claimed:
  assumes "length acc = 4"
    and "\<forall>k<4. sint (f_to_int32 fl (f_round fl (acc ! k))) \<le> 2147418112"
  shows "adjust fl sc acc =
           Some (NRGBA64
             (claimed_channel (chR sc) (sint (f_to_int32 fl (f_round fl (acc ! 0)))))
             (claimed_channel (chG sc) (sint (f_to_int32 fl (f_round fl (acc ! 1)))))
             (claimed_channel (chB sc) (sint (f_to_int32 fl (f_round fl (acc ! 2)))))
             (claimed_channel (chA sc) (sint (f_to_int32 fl (f_round fl (acc ! 3))))))"
proof -
  have "sint (f_to_int32 fl (f_round fl (acc ! 0))) \<le> 2147418112"
    "sint (f_to_int32 fl (f_round fl (acc ! 1))) \<le> 2147418112"
    "sint (f_to_int32 fl (f_round fl (acc ! 2))) \<le> 2147418112"
    "sint (f_to_int32 fl (f_round fl (acc ! 3))) \<le> 2147418112"
    using assms(2) by simp_all
  then show ?thesis
    using assms(1) by (simp only: adjust_def clamp_small_error) simp
qed


lemma NewOperation_small_ratio:
  "NewOperation exact_ops 2 (1 / 32768) = Some small_ratio_engine"
  apply (simp add: NewOperation_def initWeights_def newErrorList_def small_ratio_engine_def Let_def)
  apply (subst initWeights_loop.simps, simp)
  apply (subst initWeights_loop.simps, simp)
  apply (subst initWeights_loop.simps, simp add: round_half_away_def numeral_2_eq_2)
  done

lemma white_on_black_simps [simp]:
  "img_size (white_on_black w h) = (w, h)" "numChannels (white_on_black w h) = 4"
  "src_At (white_on_black w h) a b = NRGBA64 0xffff 0xffff 0xffff 0xffff"
  "dst_At (white_on_black w h) d a b = NRGBA64 0 0 0 0xffff"
  "dst_Set (white_on_black w h) d a b c = ()"
  by (simp_all add: white_on_black_def NewImage_def black_Set_def black_At_def)


lemma level_2x2: "dither_level (white_on_black 2 2) = 1"
  using dither_level_square [of "white_on_black 2 2" 1] by simp

lemma run_2x2:
  "Dither exact_ops (white_on_black 2 2) s =
     moves exact_ops (white_on_black 2 2) [dirDOWN, dirRIGHT, dirUP, dirNONE] s"
  by (simp add: Dither_moves level_2x2)

text \<open>One dithered pixel of a white source on the black destination.\<close>

lemma move_white_on_black:
  assumes "engine_ok q (rs s)" and "in_bounds (white_on_black w h) (cursor s)"
  shows "\<exists>s' nc. move exact_ops (white_on_black w h) dir s = Some s' \<and> engine_ok q (rs s') \<and>
           cursor s' = step dir (cursor s) \<and>
           Ratio (rs s') = Ratio (rs s) \<and> Weights (rs s') = Weights (rs s) \<and>
           contents (errors (rs s')) =
             tl (contents (errors (rs s))) @ [Vals [65535, 65535, 65535, 0]] \<and>
           adjust exact_ops (NRGBA64 0xffff 0xffff 0xffff 0xffff) (acc_formula exact_ops (rs s) 4)
             = Some nc \<and>
           map ev_acc (calls s') = map ev_acc (calls s) @ [acc_formula exact_ops (rs s) 4] \<and>
           map ev_proposed (calls s') = map ev_proposed (calls s) @ [nc]"
proof -
  let ?E = "Vals [65535, 65535, 65535, 0 :: real]"
  have n: "numChannels (white_on_black w h) = 4" by simp
  have cd: "color_diff exact_ops (NRGBA64 0xffff 0xffff 0xffff 0xffff) (NRGBA64 0 0 0 0xffff)
              = [65535, 65535, 65535, 0]"
    by (simp add: color_diff_def f_of_u16_def)
  from dither_current_ok [OF assms(1) n, of exact_ops] obtain el' nc where
    a: "adjust exact_ops (NRGBA64 0xffff 0xffff 0xffff 0xffff) (acc_formula exact_ops (rs s) 4) = Some nc"
    and r: "Rotate (errors (rs s)) ?E = Some el'"
    and d: "dither_current exact_ops (white_on_black w h) s =
             Some \<lparr> rs = (rs s)\<lparr> errors := el' \<rparr>, dst = (),
                    calls = calls s @
                      [\<lparr> ev_x = op_x (rs s), ev_y = op_y (rs s),
                         ev_acc = acc_formula exact_ops (rs s) 4, ev_proposed = nc,
                         ev_error = ?E \<rparr>] \<rparr>"
    by (auto simp: cd)
  have e4: "entry_ok 4 ?E" by (simp add: entry_ok_def)
  have ok: "engine_ok q ((rs s)\<lparr> errors := el' \<rparr>)"
    using Rotate_engine_ok [OF assms(1) e4 r] .
  have ro: "ring_ok (errors (rs s))" using assms(1) by (simp add: engine_ok_def)
  from Rotate_contents [OF ro, of ?E] r have
    c: "contents el' = tl (contents (errors (rs s))) @ [?E]" by auto
  show ?thesis
    using assms(2) a d ok c by (simp add: move_def cursor_def set_cursor_def engine_ok_def)
qed

lemma adjust_wrap:
  "adjust exact_ops (NRGBA64 0xffff 0xffff 0xffff 0xffff) [2147450880, 2147450880, 2147450880, 0]
     = Some (NRGBA64 0 0 0 0xffff)"
  by (simp add: adjust_def clamp_def word_sless_alt round_half_away_def trunc_int32_def)

lemma adjust_none:
  "adjust exact_ops (NRGBA64 0xffff 0xffff 0xffff 0xffff) [0, 0, 0, 0]
     = Some (NRGBA64 0xffff 0xffff 0xffff 0xffff)"
  by (simp add: adjust_def clamp_def word_sless_alt round_half_away_def trunc_int32_def)

lemma acc_formula_contents:
  "acc_formula fl opr 4 =
     map (\<lambda>a. f_div fl a (Ratio opr)) (acc_sum fl 4 (contents (errors opr)) (Weights opr))"
  by (simp add: acc_formula_def)

lemma acc_sum_small_ratio:
  "map (\<lambda>a. a / (1 / 32768)) (acc_sum exact_ops 4 [nilError, nilError] [1, 0]) = [0, 0, 0, 0]"
  "map (\<lambda>a. a / (1 / 32768)) (acc_sum exact_ops 4 [nilError, Vals [65535, 65535, 65535, 0]] [1, 0])
     = [0, 0, 0, 0]"
  "map (\<lambda>a. a / (1 / 32768))
     (acc_sum exact_ops 4 [Vals [65535, 65535, 65535, 0], Vals [65535, 65535, 65535, 0]] [1, 0])
     = [2147450880, 2147450880, 2147450880, 0]"
  by (simp_all add: acc_sum_def acc_step_def numeral_eq_Suc)


lemma small_ratio_engine_ok: "engine_ok 2 small_ratio_engine"
  by (simp add: engine_ok_def small_ratio_engine_def ring_ok_def entry_ok_def)

lemma move_white_on_black_step:
  assumes "engine_ok q (rs s)" and "in_bounds (white_on_black w h) (cursor s)"
    and "cursor s = p" and "step dir p = p'"
    and "contents (errors (rs s)) = c" and "tl c @ [Vals [65535, 65535, 65535, 0]] = c'"
    and "Ratio (rs s) = r" and "Weights (rs s) = ws"
    and "map (\<lambda>a. a / r) (acc_sum exact_ops 4 c ws) = acc"
    and "adjust exact_ops (NRGBA64 0xffff 0xffff 0xffff 0xffff) acc = Some nc"
    and "map ev_acc (calls s) = as" and "map ev_proposed (calls s) = ps"
  shows "\<exists>s'. move exact_ops (white_on_black w h) dir s = Some s' \<and> engine_ok q (rs s') \<and>
           cursor s' = p' \<and> contents (errors (rs s')) = c' \<and>
           Ratio (rs s') = r \<and> Weights (rs s') = ws \<and>
           map ev_acc (calls s') = as @ [acc] \<and> map ev_proposed (calls s') = ps @ [nc]"
proof -
  have "acc_formula exact_ops (rs s) 4 = acc"
    using assms(5,7,8,9) by (simp add: acc_formula_contents)
  then show ?thesis
    using move_white_on_black [OF assms(1,2), of dir] assms(3-8,10-12) by auto
qed

lemma small_ratio_run:
  "\<exists>s'. Dither exact_ops (white_on_black 2 2) (start small_ratio_engine ()) = Some s' \<and>
     map ev_acc (calls s') =
       [[0, 0, 0, 0], [0, 0, 0, 0], [2147450880, 2147450880, 2147450880, 0],
        [2147450880, 2147450880, 2147450880, 0]] \<and>
     map ev_proposed (calls s') =
       [NRGBA64 0xffff 0xffff 0xffff 0xffff, NRGBA64 0xffff 0xffff 0xffff 0xffff,
        NRGBA64 0 0 0 0xffff, NRGBA64 0 0 0 0xffff]"
proof -
  define img where "img = white_on_black 2 2"
  define s0 where "s0 = start small_ratio_engine ()"
  define E :: "real ColorError" where "E = Vals [65535, 65535, 65535, 0]"
  define r :: real where "r = 1 / 32768"
  define ws :: "real list" where "ws = [1, 0]"
  define Z :: "real list" where "Z = [0, 0, 0, 0]"
  define S :: "real list" where "S = [2147450880, 2147450880, 2147450880, 0]"
  define W where "W = NRGBA64 0xffff 0xffff 0xffff 0xffff"
  define B where "B = NRGBA64 0 0 0 0xffff"
  have sum: "map (\<lambda>a. a / r) (acc_sum exact_ops 4 [nilError, nilError] ws) = Z"
    "map (\<lambda>a. a / r) (acc_sum exact_ops 4 [nilError, E] ws) = Z"
    "map (\<lambda>a. a / r) (acc_sum exact_ops 4 [E, E] ws) = S"
    unfolding r_def ws_def Z_def S_def E_def by (rule acc_sum_small_ratio)+
  have adj: "adjust exact_ops (NRGBA64 0xffff 0xffff 0xffff 0xffff) Z = Some W"
    "adjust exact_ops (NRGBA64 0xffff 0xffff 0xffff 0xffff) S = Some B"
    unfolding Z_def S_def W_def B_def by (rule adjust_none, rule adjust_wrap)
  have ib: "in_bounds (white_on_black 2 2) (0, 0)" "in_bounds (white_on_black 2 2) (0, 1)"
    "in_bounds (white_on_black 2 2) (1, 1)" "in_bounds (white_on_black 2 2) (1, 0)"
    by (simp_all add: in_bounds_def)
  have st: "step dirDOWN (0, 0) = (0, 1)" "step dirRIGHT (0, 1) = (1, 1)"
    "step dirUP (1, 1) = (1, 0)" "step dirNONE (1, 0) = (1, 0)"
    by simp_all
  have tl: "tl [nilError, nilError] @ [Vals [65535, 65535, 65535, 0]] = [nilError, E]"
    "tl [nilError, E] @ [Vals [65535, 65535, 65535, 0]] = [E, E]"
    "tl [E, E] @ [Vals [65535, 65535, 65535, 0]] = [E, E]"
    by (simp_all add: E_def)
  have ok0: "engine_ok 2 (rs s0)" using small_ratio_engine_ok by (simp add: s0_def)
  have c0: "cursor s0 = (0, 0)" "contents (errors (rs s0)) = [nilError, nilError]"
    "Ratio (rs s0) = r" "Weights (rs s0) = ws"
    "map ev_acc (calls s0) = []" "map ev_proposed (calls s0) = []"
    by (simp_all add: s0_def r_def ws_def contents_def small_ratio_engine_def)
  have i0: "in_bounds (white_on_black 2 2) (cursor s0)" using ib(1) c0(1) by simp
  from move_white_on_black_step
    [OF ok0 i0 c0(1) st(1) c0(2) tl(1) c0(3) c0(4) sum(1) adj(1) c0(5) c0(6)]
  obtain s1 where m1: "move exact_ops (white_on_black 2 2) dirDOWN s0 = Some s1"
    and ok1: "engine_ok 2 (rs s1)"
    and c1: "cursor s1 = (0, 1)" "contents (errors (rs s1)) = [nilError, E]"
      "Ratio (rs s1) = r" "Weights (rs s1) = ws"
      "map ev_acc (calls s1) = [] @ [Z]" "map ev_proposed (calls s1) = [] @ [W]"
    by blast
  have i1: "in_bounds (white_on_black 2 2) (cursor s1)" using ib(2) c1(1) by simp
  from move_white_on_black_step
    [OF ok1 i1 c1(1) st(2) c1(2) tl(2) c1(3) c1(4) sum(2) adj(1) c1(5) c1(6)]
  obtain s2 where m2: "move exact_ops (white_on_black 2 2) dirRIGHT s1 = Some s2"
    and ok2: "engine_ok 2 (rs s2)"
    and c2: "cursor s2 = (1, 1)" "contents (errors (rs s2)) = [E, E]"
      "Ratio (rs s2) = r" "Weights (rs s2) = ws"
      "map ev_acc (calls s2) = ([] @ [Z]) @ [Z]" "map ev_proposed (calls s2) = ([] @ [W]) @ [W]"
    by blast
  have i2: "in_bounds (white_on_black 2 2) (cursor s2)" using ib(3) c2(1) by simp
  from move_white_on_black_step
    [OF ok2 i2 c2(1) st(3) c2(2) tl(3) c2(3) c2(4) sum(3) adj(2) c2(5) c2(6)]
  obtain s3 where m3: "move exact_ops (white_on_black 2 2) dirUP s2 = Some s3"
    and ok3: "engine_ok 2 (rs s3)"
    and c3: "cursor s3 = (1, 0)" "contents (errors (rs s3)) = [E, E]"
      "Ratio (rs s3) = r" "Weights (rs s3) = ws"
      "map ev_acc (calls s3) = (([] @ [Z]) @ [Z]) @ [S]"
      "map ev_proposed (calls s3) = (([] @ [W]) @ [W]) @ [B]"
    by blast
  have i3: "in_bounds (white_on_black 2 2) (cursor s3)" using ib(4) c3(1) by simp
  from move_white_on_black_step
    [OF ok3 i3 c3(1) st(4) c3(2) tl(3) c3(3) c3(4) sum(3) adj(2) c3(5) c3(6)]
  obtain s4 where m4: "move exact_ops (white_on_black 2 2) dirNONE s3 = Some s4"
    and c4: "map ev_acc (calls s4) = ((([] @ [Z]) @ [Z]) @ [S]) @ [S]"
      "map ev_proposed (calls s4) = ((([] @ [W]) @ [W]) @ [B]) @ [B]"
    by blast
  have "Dither exact_ops (white_on_black 2 2) (start small_ratio_engine ()) = Some s4"
    using m1 m2 m3 m4 by (simp add: run_2x2 s0_def)
  then show ?thesis
    using c4 by (simp add: Z_def S_def W_def B_def)
qed

text \<open>
  Claim C4 at an input where the code departs from it. The engine is
  \<^verbatim>\<open>NewOperation(2, 1.0/32768)\<close>, whose weights are 1 and 0; the source is opaque
  white, 2 by 2 pixels; the destination has the single color black, so that every
  pixel leaves the error 65535 in its first three channels. Every value below is an
  integer times a power of two, on which binary64 arithmetic is exact. At the third
  and fourth pixel the accumulated error of these channels is
  \<open>65535 * 32768 = 2147450880\<close>, which is an \<^verbatim>\<open>int32\<close>; the \<^verbatim>\<open>int32\<close> sum
  \<open>65535 + 2147450880\<close> wraps to a negative number and \<^verbatim>\<open>clamp\<close> returns 0, where the
  claimed value, the clamped integer sum, is \<open>0xffff\<close>.
\<close>

theorem C4_int32_sum_wraps:
  "NewOperation exact_ops 2 (1 / 32768) = Some small_ratio_engine \<and>
   Dither exact_ops (white_on_black 2 2) (start small_ratio_engine ()) \<noteq> None \<and>
   accumulated_errors (Dither exact_ops (white_on_black 2 2) (start small_ratio_engine ())) =
     [[0, 0, 0, 0], [0, 0, 0, 0], [2147450880, 2147450880, 2147450880, 0],
      [2147450880, 2147450880, 2147450880, 0]] \<and>
   proposed_colors (Dither exact_ops (white_on_black 2 2) (start small_ratio_engine ())) =
     [NRGBA64 0xffff 0xffff 0xffff 0xffff, NRGBA64 0xffff 0xffff 0xffff 0xffff,
      NRGBA64 0 0 0 0xffff, NRGBA64 0 0 0 0xffff] \<and>
   claimed_channel 0xffff \<lfloor>round_half_away 2147450880\<rfloor> = 0xffff"
proof -
  have "claimed_channel 0xffff \<lfloor>round_half_away 2147450880\<rfloor> = 0xffff"
    by (simp add: claimed_channel_def round_half_away_def)
  then show ?thesis
    using small_ratio_run NewOperation_small_ratio
    by (auto simp: accumulated_errors_def proposed_colors_def)
qed


end
